theory Spec2Isabelle
  imports Complex_Main "HOL-Library.Signed_Division"
begin

section \<open>Numbers and function objects\<close>

text \<open>
  A C++ \<open>double\<close> is modelled by the \<open>real\<close> it denotes. Three computations are
  rounded as the machine rounds them, to the nearest double and to the even one of two
  nearest (\<open>round_double\<close>): the conversion of a decimal text by \<open>operator>>\<close>, the
  duration \<open>N * 1000\<close> of the codec with its conversion to \<open>int\<close>, and the progress
  fraction of the tracker. The easing functions, the interpolation of a timed
  transition and the comparison of \<open>operator==\<close> are computed in exact arithmetic.
  Where the code can produce a value that is not finite (a division by zero, the
  square root of a negative number), the result is a \<open>real option\<close> and \<open>None\<close>
  stands for the non-finite value (an infinity or NaN). A C++ \<open>int\<close> and
  \<open>int64_t\<close> are modelled by \<open>int\<close>; the conversions into an \<open>int\<close> check its range.

  A \<open>smooth_function\<close> of the code is a \<open>std::function<double(double)>\<close>. Such an
  object is either empty or holds a callable; calling an empty one throws
  \<open>std::bad_function_call\<close>. The conversion of a double that is not in the range of
  \<open>int\<close> has undefined behaviour.
\<close>

type_synonym callable = "real \<Rightarrow> real option"

type_synonym smooth_function = "callable option"

datatype error = bad_function_call | undefined_behaviour

definition call :: "smooth_function \<Rightarrow> real \<Rightarrow> error + real option" where
  "call f x = (case f of None \<Rightarrow> Inl bad_function_call | Some g \<Rightarrow> Inr (g x))"

section \<open>Doubles\<close>

text \<open>
  A double is a 53-bit integer times a power of two, the power at least \<open>2^-1074\<close>.
  \<open>ilog2 n\<close> is the position of the leading bit of \<open>n\<close>, \<open>exponent x\<close> the \<open>k\<close> with
  \<open>2^k \<le> x < 2^(k+1)\<close> for a positive \<open>x\<close>, and \<open>ulp_exponent x\<close> the power of two
  of which the doubles next to \<open>x\<close> are multiples. \<open>round_double x\<close> is the multiple
  nearest to \<open>x\<close>; a result above \<open>max_double\<close>, the largest double, stands for
  an infinity.
\<close>

fun ilog2 :: "nat \<Rightarrow> nat" where
  "ilog2 n = (if n < 2 then 0 else Suc (ilog2 (n div 2)))"

definition exponent :: "real \<Rightarrow> int" where
  "exponent x =
     (if 1 \<le> x then int (ilog2 (nat \<lfloor>x\<rfloor>))
      else - int (Suc (ilog2 (nat (\<lceil>1 / x\<rceil> - 1)))))"

definition round_even :: "real \<Rightarrow> int" where
  "round_even x =
     (let f = \<lfloor>x\<rfloor>; r = x - of_int f
      in if r < 1 / 2 then f else if 1 / 2 < r then f + 1 else if even f then f else f + 1)"

definition ulp_exponent :: "real \<Rightarrow> int" where
  "ulp_exponent x = max (exponent \<bar>x\<bar> - 52) (- 1074)"

definition round_double :: "real \<Rightarrow> real" where
  "round_double x =
     (if x = 0 then 0
      else sgn x * (of_int (round_even (\<bar>x\<bar> / 2 powi ulp_exponent x)) * 2 powi ulp_exponent x))"

definition max_double :: real where
  "max_double = (2 ^ 53 - 1) * 2 ^ 971"

text \<open>The arithmetic of doubles, and the conversion of an integer to a double.\<close>

definition mul_double :: "real \<Rightarrow> real \<Rightarrow> real" where
  "mul_double a b = round_double (a * b)"

definition div_double :: "real \<Rightarrow> real \<Rightarrow> real" where
  "div_double a b = round_double (a / b)"

definition sub_double :: "real \<Rightarrow> real \<Rightarrow> real" where
  "sub_double a b = round_double (a - b)"

definition int_to_double :: "int \<Rightarrow> real" where
  "int_to_double i = round_double (of_int i)"

text \<open>
  The conversion of a \<open>double\<close> to an \<open>int\<close> truncates towards zero. C++ leaves it
  undefined when the truncated value is not one an \<open>int\<close> of 32 bits holds: \<open>None\<close>.
\<close>

definition double_to_int :: "real \<Rightarrow> int option" where
  "double_to_int x =
     (let t = (if 0 \<le> x then \<lfloor>x\<rfloor> else \<lceil>x\<rceil>)
      in if - 2147483648 \<le> t \<and> t \<le> 2147483647 then Some t else None)"

section \<open>Smoothing functions\<close>

definition bezier_helper :: "real \<Rightarrow> real \<Rightarrow> real \<Rightarrow> real \<Rightarrow> real \<Rightarrow> real" where
  "bezier_helper t p0 p1 p2 p3 =
     (let u = 1 - t
      in u * u * u * p0 + 3 * u * u * t * p1 + 3 * u * t * t * p2 + t * t * t * p3)"

definition smoothing_linear :: callable where
  "smoothing_linear x = Some x"

definition circle :: callable where
  "circle x = (if 2 * x - x * x < 0 then None else Some (sqrt (2 * x - x * x)))"

definition sigmoid_max :: real where
  "sigmoid_max = 1 + exp (- 6)"

definition sigmoid :: callable where
  "sigmoid x = Some (sigmoid_max / (1 + exp (- 12 * x + 6)))"

definition ease_out_elastic :: callable where
  "ease_out_elastic x0 =
     (let d = (1 :: real); p = d * (6 / 10); a = (0 :: real)
      in if x0 = 0 then Some 0
         else let x = x0 / d
              in if x = 1 then Some 1
                 else let (a, s) =
                            (if a = 0 \<or> a < \<bar>1\<bar> then (1, p * (25 / 100))
                             else (a, p / (2 * arccos (- 1)) * arcsin (1 / a)))
                      in Some (a * (2 powr (- 10 * x)) * sin ((x * d - s) * (2 * arccos (- 1)) / p) + 1))"

text \<open>
  The function that \<open>get_cubic_bezier\<close> returns: Newton's method on the x component of
  the curve. \<open>bezier_df\<close> is the expression the loop computes as \<open>df\<close>. The variable
  \<open>t\<close> of the loop is a \<open>real option\<close>: a division by \<open>df = 0\<close> (with \<open>f\<close> not zero, since
  the loop has not stopped) gives an infinity, from which \<open>bezier_helper\<close> gives NaN
  (it multiplies the infinite \<open>u * u * u\<close> by \<open>p0 = 0\<close>); a comparison with NaN is
  false, so the loop never stops early again and \<open>t\<close> stays non-finite. The bound
  \<open>1e-6\<close> of the test is the rational \<open>1 / 1000000\<close>.
\<close>

definition bezier_df :: "real \<Rightarrow> real \<Rightarrow> real \<Rightarrow> real" where
  "bezier_df x1 x2 t =
     3 * (1 - t) * (1 - t) * x1 + 6 * (1 - t) * t * (x2 - x1) + 3 * t * t * (1 - x2)"

function newton_loop :: "real \<Rightarrow> real \<Rightarrow> real \<Rightarrow> nat \<Rightarrow> real option \<Rightarrow> real option" where
  "newton_loop x1 x2 x i t =
     (if i < 10 then
        (case t of
           None \<Rightarrow> newton_loop x1 x2 x (i + 1) None
         | Some tv \<Rightarrow>
             (let f = bezier_helper tv 0 x1 x2 1 - x;
                  df = bezier_df x1 x2 tv
              in if \<bar>f\<bar> < 1 / 1000000 then Some tv
                 else newton_loop x1 x2 x (i + 1)
                        (if df = 0 then None else Some (tv - f / df))))
      else t)"
  by pat_completeness auto
termination
  by (relation "measure (\<lambda>(x1, x2, x, i, t). 10 - i)") auto

definition get_cubic_bezier :: "real \<Rightarrow> real \<Rightarrow> real \<Rightarrow> real \<Rightarrow> callable" where
  "get_cubic_bezier x1 y1 x2 y2 x =
     (case newton_loop x1 x2 x 0 (Some x) of
        None \<Rightarrow> None
      | Some t \<Rightarrow> Some (bezier_helper t 0 y1 y2 1))"

text \<open>
  Newton's method in the words of the specification: one update of the parameter, and
  the test that stops the iteration.
\<close>

definition newton_step :: "real \<Rightarrow> real \<Rightarrow> real \<Rightarrow> real option \<Rightarrow> real option" where
  "newton_step x1 x2 x t =
     (case t of
        None \<Rightarrow> None
      | Some tv \<Rightarrow>
          if bezier_df x1 x2 tv = 0 then None
          else Some (tv - (bezier_helper tv 0 x1 x2 1 - x) / bezier_df x1 x2 tv))"

definition converged :: "real \<Rightarrow> real \<Rightarrow> real \<Rightarrow> real option \<Rightarrow> bool" where
  "converged x1 x2 x t =
     (case t of None \<Rightarrow> False | Some tv \<Rightarrow> \<bar>bezier_helper tv 0 x1 x2 1 - x\<bar> < 1 / 1000000)"

section \<open>Animation descriptions\<close>

record animation_description_t =
  length_ms :: int
  easing :: smooth_function
  easing_name :: string

section \<open>Character streams\<close>

text \<open>
  A \<open>std::istringstream\<close>: the characters not yet read and the two state bits that a
  string stream can set. A formatted extraction first builds a sentry: on a stream that
  is not good it sets \<open>failbit\<close> and reads nothing; otherwise it skips white space, and
  sets \<open>eofbit\<close> and \<open>failbit\<close> when nothing is left. The state bits are never cleared
  in this code.
\<close>

record istream =
  buf :: string
  eofbit :: bool
  failbit :: bool

definition istringstream :: "string \<Rightarrow> istream" where
  "istringstream s = \<lparr>buf = s, eofbit = False, failbit = False\<rparr>"

definition isspace :: "char \<Rightarrow> bool" where
  "isspace c = (c \<in> set [CHR '' '', CHR 0x09, CHR 0x0A, CHR 0x0B, CHR 0x0C, CHR 0x0D])"

definition isdigit :: "char \<Rightarrow> bool" where
  "isdigit c = (48 \<le> (of_char c :: nat) \<and> (of_char c :: nat) \<le> 57)"

definition digit_value :: "char \<Rightarrow> nat" where
  "digit_value c = of_char c - 48"

definition digits_value :: "string \<Rightarrow> nat" where
  "digits_value ds = foldl (\<lambda>a c. 10 * a + digit_value c) 0 ds"

definition sentry :: "istream \<Rightarrow> istream \<times> bool" where
  "sentry st =
     (if eofbit st \<or> failbit st then (st\<lparr>failbit := True\<rparr>, False)
      else (case dropWhile isspace (buf st) of
              [] \<Rightarrow> (st\<lparr>buf := [], eofbit := True, failbit := True\<rparr>, False)
            | c # cs \<Rightarrow> (st\<lparr>buf := c # cs\<rparr>, True)))"

text \<open>
  An extraction returns the stream and what it stored into its variable: \<open>None\<close> when
  the variable was left untouched. \<open>stored\<close> is the variable afterwards.
\<close>

definition stored :: "'a option \<Rightarrow> 'a \<Rightarrow> 'a" where
  "stored r old = (case r of None \<Rightarrow> old | Some v \<Rightarrow> v)"

text \<open>\<open>stream >> word\<close> for a \<open>std::string\<close>: the characters up to the next white space.\<close>

definition get_string :: "istream \<Rightarrow> istream \<times> string option" where
  "get_string st =
     (case sentry st of
        (st', False) \<Rightarrow> (st', None)
      | (st', True) \<Rightarrow>
          (let w = takeWhile (\<lambda>c. \<not> isspace c) (buf st');
               r = dropWhile (\<lambda>c. \<not> isspace c) (buf st')
           in (st'\<lparr>buf := r, eofbit := (r = [])\<rparr>, Some w)))"

text \<open>
  \<open>stream >> x\<close> for a \<open>double\<close>, as \<open>std::num_get\<close> reads it in the classic locale: an
  optional sign, digits, at most one decimal point with digits, and, once a digit has
  been read, an exponent letter with an optional sign and digits. The characters are
  consumed as far as they fit; the field converts when it has a digit in its mantissa
  and, if it has an exponent letter, a digit in the exponent. When it does not convert,
  zero is stored and \<open>failbit\<close> is set (the rule since C++11). \<open>scan_float\<close> gives the
  number that the field denotes; what is stored is the double nearest to it, and for a
  number too large for a double the largest double of its sign, with \<open>failbit\<close> set.
\<close>

definition take_sign :: "string \<Rightarrow> bool \<times> string" where
  "take_sign s =
     (case s of
        [] \<Rightarrow> (False, [])
      | c # cs \<Rightarrow>
          if c = CHR ''-'' then (True, cs) else if c = CHR ''+'' then (False, cs) else (False, s))"

definition take_fraction :: "string \<Rightarrow> string \<times> string" where
  "take_fraction s =
     (case s of
        [] \<Rightarrow> ([], [])
      | c # cs \<Rightarrow>
          if c = CHR ''.'' then (takeWhile isdigit cs, dropWhile isdigit cs) else ([], s))"

definition scan_exponent :: "bool \<Rightarrow> real \<Rightarrow> string \<Rightarrow> real option \<times> string" where
  "scan_exponent mantissa m s =
     (case s of
        [] \<Rightarrow> (if mantissa then Some m else None, [])
      | c # cs \<Rightarrow>
          if (c = CHR ''e'' \<or> c = CHR ''E'') \<and> mantissa then
            (let (eneg, s4) = take_sign cs;
                 ep = takeWhile isdigit s4;
                 s5 = dropWhile isdigit s4
             in if ep = [] then (None, s5)
                else (Some (if eneg then m / 10 ^ digits_value ep
                            else m * 10 ^ digits_value ep), s5))
          else (if mantissa then Some m else None, s))"

definition scan_float :: "string \<Rightarrow> real option \<times> string" where
  "scan_float s =
     (let (neg, s1) = take_sign s;
          ip = takeWhile isdigit s1;
          s2 = dropWhile isdigit s1;
          (fp, s3) = take_fraction s2;
          mantissa = \<not> (ip = [] \<and> fp = []);
          m = (if neg then - 1 else 1)
                * (real (digits_value ip) + real (digits_value fp) / 10 ^ length fp)
      in scan_exponent mantissa m s3)"

definition get_double :: "istream \<Rightarrow> istream \<times> real option" where
  "get_double st =
     (case sentry st of
        (st', False) \<Rightarrow> (st', None)
      | (st', True) \<Rightarrow>
          (case scan_float (buf st') of
             (Some v, r) \<Rightarrow>
               if max_double < \<bar>round_double v\<bar>
               then (st'\<lparr>buf := r, eofbit := (r = []), failbit := True\<rparr>,
                     Some (sgn v * max_double))
               else (st'\<lparr>buf := r, eofbit := (r = [])\<rparr>, Some (round_double v))
           | (None, r) \<Rightarrow> (st'\<lparr>buf := r, eofbit := (r = []), failbit := True\<rparr>, Some 0)))"

section \<open>Conversions of the configuration library\<close>

text \<open>
  Modelled from the spec: \<open>from_string<int>\<close>, a function of the configuration library
  that is not among these sources. The specification says of it that ``the entire text
  parses as a bare integer'': here an optional minus sign and one or more decimal
  digits, nothing before or after, with a value that fits an \<open>int\<close> of 32 bits.
\<close>

definition from_string_int :: "string \<Rightarrow> int option" where
  "from_string_int s =
     (let (neg, ds) = (case s of [] \<Rightarrow> (False, [])
                       | c # cs \<Rightarrow> if c = CHR ''-'' then (True, cs) else (False, s))
      in if ds \<noteq> [] \<and> list_all isdigit ds then
           (let v = (if neg then - int (digits_value ds) else int (digits_value ds))
            in if - 2147483648 \<le> v \<and> v \<le> 2147483647 then Some v else None)
         else None)"

text \<open>
  Modelled from the spec: \<open>to_string<int>\<close> of the configuration library, the decimal
  numeral of an \<open>int\<close> (the serialized form is ``\<open><duration_ms>ms <easing_name>\<close>'').
\<close>

definition digit_char :: "nat \<Rightarrow> char" where
  "digit_char d = ''0123456789'' ! d"

fun string_of_nat :: "nat \<Rightarrow> string" where
  "string_of_nat n =
     (if n < 10 then [digit_char n] else string_of_nat (n div 10) @ [digit_char (n mod 10)])"

definition to_string_int :: "int \<Rightarrow> string" where
  "to_string_int i = (if i < 0 then CHR ''-'' # string_of_nat (nat (- i)) else string_of_nat (nat i))"

text \<open>
  Modelled from the spec: \<open>to_string<double>\<close> of the configuration library, which is
  not among these sources either, ``the implementation's standard numeric-to-string
  formatting'' of a double: fixed notation with six digits after the point, rounded to
  the nearest and to the even one of two nearest; the sign of a value that rounds to
  zero is not printed, since the model has no negative zero. The codec below does not depend on it: it takes the formatter of
  doubles as a parameter \<open>dts\<close>, and \<open>to_string_fixed\<close> is the instance used on concrete
  inputs.
\<close>

definition pad6 :: "nat \<Rightarrow> string" where
  "pad6 m = drop (length (string_of_nat m)) ''000000'' @ string_of_nat m"

definition to_string_fixed :: "real \<Rightarrow> string" where
  "to_string_fixed x =
     (let n = nat (round_even (\<bar>x\<bar> * 1000000))
      in (if x < 0 \<and> 0 < n then ''-'' else [])
         @ string_of_nat (n div 1000000) @ ''.'' @ pad6 (n mod 1000000))"

section \<open>The codec of animation descriptions\<close>

text \<open>The \<open>std::map\<close> of the named easings, in the order of its keys.\<close>

definition easing_map :: "(string \<times> callable) list" where
  "easing_map =
     [(''circle'', circle), (''easeOutElastic'', ease_out_elastic),
      (''linear'', smoothing_linear), (''sigmoid'', sigmoid)]"

definition get_available_smooth_functions :: "string list" where
  "get_available_smooth_functions = map fst easing_map"

definition bezier_name :: "(real \<Rightarrow> string) \<Rightarrow> real \<Rightarrow> real \<Rightarrow> real \<Rightarrow> real \<Rightarrow> string" where
  "bezier_name dts x1 y1 x2 y2 =
     ''cubic-bezier '' @ dts x1 @ '' '' @ dts y1 @ '' '' @ dts x2 @ '' '' @ dts y2"

text \<open>
  \<open>from_string<animation_description_t>\<close> in three parts. \<open>read_header\<close> is
  \<open>stream >> N >> suffix\<close> and its test: \<open>N\<close> and \<open>suffix\<close> have been stored when the stream
  has not failed.
\<close>

definition read_header :: "string \<Rightarrow> (real \<times> string \<times> istream) option" where
  "read_header text =
     (case get_double (istringstream text) of
        (stream, N) \<Rightarrow>
          (case get_string stream of
             (stream, suffix) \<Rightarrow>
               if failbit stream then None
               else (case N of None \<Rightarrow> None | Some n \<Rightarrow> Some (n, stored suffix [], stream))))"

text \<open>\<open>stream >> x1 >> y1 >> x2 >> y2\<close> on the variables initialised to 0, 0, 1, 1.\<close>

definition read_params :: "istream \<Rightarrow> istream \<times> real \<times> real \<times> real \<times> real" where
  "read_params stream =
     (case get_double stream of
        (stream, r1) \<Rightarrow>
          (case get_double stream of
             (stream, r2) \<Rightarrow>
               (case get_double stream of
                  (stream, r3) \<Rightarrow>
                    (case get_double stream of
                       (stream, r4) \<Rightarrow>
                         (stream, stored r1 0, stored r2 0, stored r3 1, stored r4 1)))))"

text \<open>The easing token and what it selects: the stream, the function and the name.\<close>

definition read_easing ::
  "(real \<Rightarrow> string) \<Rightarrow> istream \<Rightarrow> (istream \<times> callable \<times> string) option" where
  "read_easing dts stream0 =
     (case get_string stream0 of
        (stream, r) \<Rightarrow>
          (let easing_name = (if failbit stream then ''circle'' else stored r [])
           in case map_of easing_map easing_name of
                Some f \<Rightarrow> Some (stream, f, easing_name)
              | None \<Rightarrow>
                  if easing_name = ''cubic-bezier'' then
                    (case read_params stream of
                       (stream, x1, y1, x2, y2) \<Rightarrow>
                         Some (stream, get_cubic_bezier x1 y1 x2 y2, bezier_name dts x1 y1 x2 y2))
                  else None))"

text \<open>
  The result is \<open>Inr None\<close> for the empty optional, and \<open>Inl undefined_behaviour\<close>
  when the duration, \<open>N * 1000\<close> or \<open>N\<close>, is not in the range of \<open>int\<close>.
\<close>

definition from_string ::
  "(real \<Rightarrow> string) \<Rightarrow> string \<Rightarrow> error + animation_description_t option" where
  "from_string dts text =
     (case from_string_int text of
        Some val \<Rightarrow>
          Inr (Some \<lparr>length_ms = val, easing = Some circle, easing_name = ''circle''\<rparr>)
      | None \<Rightarrow>
          (case read_header text of
             None \<Rightarrow> Inr None
           | Some (N, suffix, stream) \<Rightarrow>
               if suffix \<noteq> ''ms'' \<and> suffix \<noteq> ''s'' then Inr None
               else
                 (case read_easing dts stream of
                    None \<Rightarrow> Inr None
                  | Some (stream, f, name) \<Rightarrow>
                      (case get_string stream of
                         (stream, tmp) \<Rightarrow>
                           if \<not> failbit stream then Inr None
                           else
                             (case double_to_int (if suffix = ''s'' then mul_double N 1000 else N) of
                                None \<Rightarrow> Inl undefined_behaviour
                              | Some len \<Rightarrow>
                                  Inr (Some \<lparr>length_ms = len, easing = Some f,
                                             easing_name = name\<rparr>))))))"

text \<open>\<open>to_string<animation_description_t>\<close>; \<open>to_string\<close> of a string is the string.\<close>

definition to_string :: "animation_description_t \<Rightarrow> string" where
  "to_string d = to_string_int (length_ms d) @ ''ms '' @ easing_name d"

subsection \<open>Equality of descriptions\<close>

definition epsilon :: real where
  "epsilon = 1 / 2 ^ 52"

definition epsilon_comparison :: "real \<Rightarrow> real \<Rightarrow> bool" where
  "epsilon_comparison a b = (\<bar>a - b\<bar> \<le> epsilon * \<bar>a + b\<bar>)"

text \<open>
  The eight doubles of \<open>operator==\<close> are not initialised: a variable that no extraction
  has stored into is \<open>None\<close>, and a comparison that reads one has no defined result.
  \<open>and_also\<close> is \<open>&&\<close>: its right operand is evaluated only when the left one is true.
\<close>

definition compare_read :: "real option \<Rightarrow> real option \<Rightarrow> bool option" where
  "compare_read a b =
     (case a of None \<Rightarrow> None
      | Some x \<Rightarrow> (case b of None \<Rightarrow> None | Some y \<Rightarrow> Some (epsilon_comparison x y)))"

definition and_also :: "bool option \<Rightarrow> bool option \<Rightarrow> bool option" where
  "and_also p q = (case p of None \<Rightarrow> None | Some False \<Rightarrow> Some False | Some True \<Rightarrow> q)"

text \<open>
  \<open>operator==\<close>, the receiver first. Both streams are made from the name of the
  receiver, and the last comparison has \<open>y2_b\<close> on both sides, as in the source.
\<close>

fun description_eq :: "animation_description_t \<Rightarrow> animation_description_t \<Rightarrow> bool option" where
  "description_eq this other =
     (if easing_name this = easing_name other then Some (length_ms this = length_ms other)
      else
        (case get_string (istringstream (easing_name this)) of
           (easing_a, easing_type_a) \<Rightarrow>
             (case get_string (istringstream (easing_name this)) of
                (easing_b, easing_type_b) \<Rightarrow>
                  if stored easing_type_a [] \<noteq> ''cubic-bezier''
                     \<or> stored easing_type_b [] \<noteq> ''cubic-bezier''
                  then Some False
                  else
                    (case get_double easing_a of (easing_a, x1_a) \<Rightarrow>
                     case get_double easing_a of (easing_a, y1_a) \<Rightarrow>
                     case get_double easing_a of (easing_a, x2_a) \<Rightarrow>
                     case get_double easing_a of (easing_a, y2_a) \<Rightarrow>
                     case get_double easing_b of (easing_b, x1_b) \<Rightarrow>
                     case get_double easing_b of (easing_b, y1_b) \<Rightarrow>
                     case get_double easing_b of (easing_b, x2_b) \<Rightarrow>
                     case get_double easing_b of (easing_b, y2_b) \<Rightarrow>
                       and_also (compare_read x1_a x1_b)
                         (and_also (compare_read y1_a y1_b)
                            (and_also (compare_read x2_a x2_b)
                               (compare_read y2_b y2_b)))))))"

section \<open>The documented behaviour of the codec, in the words of the specification\<close>

text \<open>
  A real number is a double when rounding leaves it as it is and it is not above the
  largest double in magnitude.
\<close>

definition is_double :: "real \<Rightarrow> bool" where
  "is_double x = (round_double x = x \<and> \<bar>x\<bar> \<le> max_double)"

text \<open>
  A formatter of doubles is stable under reading when the text it prints for a double
  is read back, up to the next white space or the end, as a double that it prints the
  same way. \<open>std::to_string\<close> is such a formatter.
\<close>

definition reread :: "(real \<Rightarrow> string) \<Rightarrow> real \<Rightarrow> real" where
  "reread dts x = round_double (stored (fst (scan_float (dts x))) 0)"

definition reread_stable :: "(real \<Rightarrow> string) \<Rightarrow> bool" where
  "reread_stable dts =
     (\<forall>x r. is_double x \<and> (r = [] \<or> isspace (hd r)) \<longrightarrow>
        (\<exists>v. scan_float (dts x @ r) = (Some v, r) \<and> reread dts x = round_double v)
        \<and> \<bar>reread dts x\<bar> \<le> max_double
        \<and> dts (reread dts x) = dts x)"

text \<open>
  The descriptions the codec produces: the duration is an \<open>int\<close>, and the easing name
  is one of the registered names or the canonical name of a cubic Bezier curve, made
  from four doubles.
\<close>

definition valid_description :: "(real \<Rightarrow> string) \<Rightarrow> animation_description_t \<Rightarrow> bool" where
  "valid_description dts d =
     (- 2147483648 \<le> length_ms d \<and> length_ms d \<le> 2147483647
      \<and> (easing_name d \<in> set get_available_smooth_functions
           \<or> (\<exists>x1 y1 x2 y2. is_double x1 \<and> is_double y1 \<and> is_double x2 \<and> is_double y2
                  \<and> easing_name d = bezier_name dts x1 y1 x2 y2)))"

section \<open>Auxiliary notions for the proofs\<close>

text \<open>A text that ends, or goes on with a character that no number contains.\<close>

definition no_float_char :: "string \<Rightarrow> bool" where
  "no_float_char r =
     (case r of
        [] \<Rightarrow> True
      | c # cs \<Rightarrow> \<not> isdigit c \<and> c \<noteq> CHR ''.'' \<and> c \<noteq> CHR ''e'' \<and> c \<noteq> CHR ''E'')"

text \<open>The number of millionths that \<open>to_string_fixed\<close> prints.\<close>

definition fixed_units :: "real \<Rightarrow> nat" where
  "fixed_units x = nat (round_even (\<bar>x\<bar> * 1000000))"

section \<open>The duration tracker\<close>

text \<open>
  \<open>duration_t::impl\<close>. The two shared pointers \<open>length\<close> and \<open>descr\<close> are either null
  (\<open>None\<close>) or point to an option of the configuration, whose current value is what
  \<open>get_value()\<close> returns. An instant of \<open>std::chrono::system_clock\<close> is the number of
  its ticks since the epoch, a tick being a nanosecond; \<open>duration_cast<milliseconds>\<close>
  divides by \<open>ticks_per_ms\<close> and truncates towards zero (\<open>sdiv\<close>). Every operation reads
  the clock once: its argument \<open>now\<close>. The progress fraction is computed in doubles,
  from the elapsed time and the duration converted to doubles.
\<close>

record impl =
  start_point :: int
  length_opt :: "int option"
  descr :: "animation_description_t option"
  smooth_function :: smooth_function
  is_running :: bool
  reverse :: bool

definition ticks_per_ms :: int where
  "ticks_per_ms = 1000000"

definition get_elapsed :: "impl \<Rightarrow> int \<Rightarrow> int" where
  "get_elapsed p now = (now - start_point p) sdiv ticks_per_ms"

text \<open>
  \<open>get_duration\<close> with the line it logs: the second component holds what \<open>LOGD\<close> was
  given, in order.
\<close>

definition get_duration_logged :: "impl \<Rightarrow> int \<times> string list" where
  "get_duration_logged p =
     (case descr p of
        Some d \<Rightarrow> (max 1 (length_ms d), [])
      | None \<Rightarrow>
          (case length_opt p of
             Some v \<Rightarrow> (max 1 v, [])
           | None \<Rightarrow>
               (1, [''Calling methods on wf::animation::duration_t without a length''])))"

definition get_duration :: "impl \<Rightarrow> int" where
  "get_duration p = fst (get_duration_logged p)"

definition is_ready :: "impl \<Rightarrow> int \<Rightarrow> bool" where
  "is_ready p now = (get_elapsed p now \<ge> get_duration p)"

text \<open>\<open>std::clamp(v, lo, hi)\<close>.\<close>

definition clamp :: "real \<Rightarrow> real \<Rightarrow> real \<Rightarrow> real" where
  "clamp v lo hi = (if v < lo then lo else if hi < v then hi else v)"

definition get_progress_percentage :: "impl \<Rightarrow> int \<Rightarrow> real" where
  "get_progress_percentage p now =
     (if (length_opt p = None \<and> descr p = None) \<or> is_ready p now then 1
      else let progress = div_double (mul_double 1 (int_to_double (get_elapsed p now)))
                                     (int_to_double (get_duration p));
               progress = (if reverse p then sub_double 1 progress else progress)
           in clamp progress 0 1)"

definition progress :: "impl \<Rightarrow> int \<Rightarrow> error + real option" where
  "progress p now =
     (if is_ready p now then Inr (Some (if reverse p then 0 else 1))
      else (case descr p of
              Some d \<Rightarrow> call (easing d) (get_progress_percentage p now)
            | None \<Rightarrow> call (smooth_function p) (get_progress_percentage p now)))"

text \<open>The two constructors of \<open>duration_t\<close>.\<close>

definition duration_of_length :: "int option \<Rightarrow> smooth_function \<Rightarrow> impl" where
  "duration_of_length len smooth =
     \<lparr>start_point = 0, length_opt = len, descr = None, smooth_function = smooth,
      is_running = False, reverse = False\<rparr>"

definition duration_of_descr :: "animation_description_t option \<Rightarrow> impl" where
  "duration_of_descr d =
     \<lparr>start_point = 0, length_opt = None, descr = d, smooth_function = None,
      is_running = False, reverse = False\<rparr>"

definition duration_start :: "impl \<Rightarrow> int \<Rightarrow> impl" where
  "duration_start p now = p\<lparr>is_running := True, start_point := now\<rparr>"

text \<open>\<open>running()\<close> returns its answer and the state it leaves.\<close>

definition duration_running :: "impl \<Rightarrow> int \<Rightarrow> bool \<times> impl" where
  "duration_running p now =
     (if is_ready p now
      then (let was_running = is_running p in (was_running, p\<lparr>is_running := False\<rparr>))
      else (True, p))"

definition duration_reverse :: "impl \<Rightarrow> int \<Rightarrow> impl" where
  "duration_reverse p now =
     (let total_duration = get_duration p;
          elapsed = min (get_elapsed p now) total_duration;
          remaining = total_duration - elapsed
      in p\<lparr>start_point := now - remaining * ticks_per_ms, reverse := \<not> reverse p\<rparr>)"

definition get_direction :: "impl \<Rightarrow> int" where
  "get_direction p = (if \<not> reverse p then 1 else 0)"

text \<open>
  A caller that polls \<open>running()\<close> at the instants of a list, one after the other: the
  answers, and the state after the last call.
\<close>

fun poll_running :: "impl \<Rightarrow> int list \<Rightarrow> bool list \<times> impl" where
  "poll_running p [] = ([], p)"
| "poll_running p (t # ts) =
     (case duration_running p t of
        (r, p') \<Rightarrow> (case poll_running p' ts of (rs, p'') \<Rightarrow> (r # rs, p'')))"

section \<open>Timed transitions\<close>

text \<open>
  A \<open>timed_transition_t\<close> holds its two end points and a shared pointer to the \<open>impl\<close> of
  the tracker it is bound to; the functions below take the state that pointer refers to
  as an argument.
\<close>

record timed_transition_t =
  t_start :: real
  t_end :: real

definition transition_value :: "timed_transition_t \<Rightarrow> impl \<Rightarrow> int \<Rightarrow> error + real option" where
  "transition_value tt p now =
     (case progress p now of
        Inl e \<Rightarrow> Inl e
      | Inr None \<Rightarrow> Inr None
      | Inr (Some alpha) \<Rightarrow> Inr (Some ((1 - alpha) * t_start tt + alpha * t_end tt)))"

section \<open>The documented behaviour of the tracker, in the words of the specification\<close>

definition bound_easing :: "impl \<Rightarrow> smooth_function" where
  "bound_easing p = (case descr p of Some d \<Rightarrow> easing d | None \<Rightarrow> smooth_function p)"

definition spec_progress_fraction :: "impl \<Rightarrow> int \<Rightarrow> real" where
  "spec_progress_fraction p now =
     (if (descr p = None \<and> length_opt p = None) \<or> get_elapsed p now \<ge> get_duration p then 1
      else let fraction = div_double (int_to_double (get_elapsed p now))
                                     (int_to_double (get_duration p))
           in max 0 (min 1 (if reverse p then sub_double 1 fraction else fraction)))"

definition spec_progress :: "impl \<Rightarrow> int \<Rightarrow> error + real option" where
  "spec_progress p now =
     (if get_elapsed p now \<ge> get_duration p \<and> reverse p then Inr (Some 0)
      else if get_elapsed p now \<ge> get_duration p then Inr (Some 1)
      else call (bound_easing p) (spec_progress_fraction p now))"

section \<open>Example states\<close>

definition linear_tracker :: impl where
  "linear_tracker = duration_start (duration_of_length (Some 1000) (Some smoothing_linear)) 0"

definition sigmoid_tracker :: impl where
  "sigmoid_tracker =
     duration_start
       (duration_of_descr
          (Some \<lparr>length_ms = 1000, easing = Some sigmoid, easing_name = ''sigmoid''\<rparr>)) 0"

section \<open>Properties of doubles\<close>

declare ilog2.simps [simp del]

lemma ilog2_numeral [simp]:
  "ilog2 (numeral k) = (if (numeral k :: nat) < 2 then 0 else Suc (ilog2 (numeral k div 2)))"
  "ilog2 0 = 0"
  "ilog2 (Suc 0) = 0"
  by (subst ilog2.simps, simp)+


lemma ilog2_bounds: "0 < n \<Longrightarrow> 2 ^ ilog2 n \<le> n \<and> n < 2 * 2 ^ ilog2 n"
proof (induction n rule: ilog2.induct)
  case (1 n)
  show ?case
  proof (cases "n < 2")
    case True
    then have "n = 1" using 1(2) by simp
    then show ?thesis by (simp add: ilog2.simps)
  next
    case False
    then have "0 < n div 2" by simp
    from 1(1) [OF False this]
    have "2 ^ ilog2 (n div 2) \<le> n div 2" "n div 2 < 2 * 2 ^ ilog2 (n div 2)" by auto
    moreover have "ilog2 n = Suc (ilog2 (n div 2))"
      using False by (subst ilog2.simps) simp
    ultimately show ?thesis by simp linarith
  qed
qed

lemma exponent_bounds:
  assumes "0 < x"
  shows "2 powi exponent x \<le> x" "x < 2 powi (exponent x + 1)"
proof -
  have "2 powi exponent x \<le> x \<and> x < 2 powi (exponent x + 1)"
  proof (cases "1 \<le> x")
    case True
    define n where "n = nat \<lfloor>x\<rfloor>"
    have n: "0 < n" "real n \<le> x" "x < real n + 1"
      using True by (simp_all add: n_def) (linarith+)?
    define k where "k = ilog2 n"
    have "2 ^ k \<le> n" "n + 1 \<le> 2 * 2 ^ k"
      using ilog2_bounds [OF n(1)] by (simp_all add: k_def)
    then have "(2::real) ^ k \<le> real n" "real n + 1 \<le> 2 * 2 ^ k"
      by (metis of_nat_le_iff of_nat_numeral of_nat_power, 
          metis (mono_tags) of_nat_le_iff of_nat_numeral of_nat_power of_nat_add of_nat_mult of_nat_1)
    then have "(2::real) ^ k \<le> x" "x < 2 * 2 ^ k"
      using n by linarith+
    moreover have "exponent x = int k"
      using True by (simp add: exponent_def k_def n_def)
    moreover have "(2::real) powi (int k + 1) = 2 * 2 ^ k"
      by (simp add: power_int_add)
    ultimately show ?thesis by simp
  next
    case False
    define y where "y = 1 / x"
    have y: "1 < y" using False assms by (simp add: y_def)
    define n where "n = nat (\<lceil>y\<rceil> - 1)"
    have n: "0 < n" "real n < y" "y \<le> real n + 1"
      using y by (simp_all add: n_def) (linarith+)?
    define k where "k = ilog2 n"
    have "2 ^ k \<le> n" "n + 1 \<le> 2 * 2 ^ k"
      using ilog2_bounds [OF n(1)] by (simp_all add: k_def)
    then have "(2::real) ^ k \<le> real n" "real n + 1 \<le> 2 * 2 ^ k"
      by (metis of_nat_le_iff of_nat_numeral of_nat_power, 
          metis (mono_tags) of_nat_le_iff of_nat_numeral of_nat_power of_nat_add of_nat_mult of_nat_1)
    then have b: "(2::real) ^ k < y" "y \<le> 2 ^ Suc k"
      using n by (simp_all del: of_nat_le_numeral_power_cancel_iff numeral_power_le_of_nat_cancel_iff)
    have e: "exponent x = - int (Suc k)"
      using False by (simp add: exponent_def k_def n_def y_def)
    have x: "x = 1 / y" using assms by (simp add: y_def)
    have p1: "(2::real) powi exponent x = 1 / 2 ^ Suc k"
      unfolding e by (simp only: power_int_minus_divide power_int_of_nat)
    have "- int (Suc k) + 1 = - int k" by simp
    then have p2: "(2::real) powi (exponent x + 1) = 1 / 2 ^ k"
      unfolding e by (simp only: power_int_minus_divide power_int_of_nat)
    have "1 / 2 ^ Suc k \<le> 1 / y" "1 / y < 1 / 2 ^ k"
      using b y by (simp_all add: frac_le frac_less2 del: power_Suc)
    then have "1 / 2 ^ Suc k \<le> x" "x < 1 / 2 ^ k"
      using x by simp_all
    then show ?thesis unfolding p1 p2 by (rule conjI)
  qed
  then show "2 powi exponent x \<le> x" "x < 2 powi (exponent x + 1)" by simp_all
qed

lemma exponent_unique:
  assumes "0 < x" "2 powi k \<le> x" "x < 2 powi (k + 1)"
  shows "exponent x = k"
proof (rule ccontr)
  assume ne: "exponent x \<noteq> k"
  note b = exponent_bounds [OF assms(1)]
  show False
  proof (cases "exponent x < k")
    case True
    then have "(2::real) powi (exponent x + 1) \<le> 2 powi k"
      by (intro power_int_increasing) simp_all
    then show False using b assms by linarith
  next
    case False
    then have "k + 1 \<le> exponent x" using ne by simp
    then have "(2::real) powi (k + 1) \<le> 2 powi exponent x"
      by (intro power_int_increasing) simp_all
    then show False using b assms by linarith
  qed
qed


lemma round_even_error: "\<bar>of_int (round_even y) - y\<bar> \<le> 1 / 2"
  by (simp add: round_even_def Let_def)

lemma round_even_of_int [simp]: "round_even (of_int m) = m"
  by (simp add: round_even_def)

lemma round_even_0 [simp]: "round_even 0 = 0"
  by (simp add: round_even_def)

lemma round_even_ge:
  assumes "of_int m \<le> y"
  shows "m \<le> round_even y"
proof -
  have "m \<le> \<lfloor>y\<rfloor>" using assms by (simp add: le_floor_iff)
  moreover have "\<lfloor>y\<rfloor> \<le> round_even y" by (simp add: round_even_def Let_def)
  ultimately show ?thesis by simp
qed

lemma round_even_le:
  assumes "y \<le> of_int m"
  shows "round_even y \<le> m"
proof (cases "y = of_int m")
  case True
  then show ?thesis by simp
next
  case False
  then have "y < of_int m" using assms by simp
  then have "\<lfloor>y\<rfloor> < m" by (simp add: floor_less_iff)
  then show ?thesis by (simp add: round_even_def Let_def)
qed

lemma round_even_near:
  assumes "\<bar>y - of_int m\<bar> < 1 / 2"
  shows "round_even y = m"
proof -
  have "\<bar>real_of_int (round_even y) - of_int m\<bar> < 1"
    using round_even_error [of y] assms by linarith
  then have "\<bar>real_of_int (round_even y - m)\<bar> < 1" by simp
  then have "\<bar>round_even y - m\<bar> < 1" by linarith
  then show ?thesis by simp
qed

lemma ulp_exponent_minus [simp]: "ulp_exponent (- x) = ulp_exponent x"
  by (simp add: ulp_exponent_def)

lemma ulp_exponent_abs [simp]: "ulp_exponent \<bar>x\<bar> = ulp_exponent x"
  by (simp add: ulp_exponent_def)

lemma round_double_0 [simp]: "round_double 0 = 0"
  by (simp add: round_double_def)

lemma round_double_minus: "round_double (- x) = - round_double x"
  by (simp add: round_double_def)

lemma round_double_pos:
  "0 < x \<Longrightarrow> round_double x = of_int (round_even (x / 2 powi ulp_exponent x)) * 2 powi ulp_exponent x"
  by (simp add: round_double_def)

lemma round_double_abs: "round_double \<bar>x\<bar> = \<bar>round_double x\<bar>"
proof -
  have "0 \<le> round_double y" if "0 < y" for y
    using that round_even_ge [of 0 "y / 2 powi ulp_exponent y"]
    by (simp add: round_double_pos)
  note nonneg = this
  show ?thesis
  proof (cases "0 < x")
    case True
    then show ?thesis using nonneg [of x] by simp
  next
    case False
    show ?thesis
    proof (cases "x = 0")
      case True
      then show ?thesis by simp
    next
      case False
      then have "0 < - x" using \<open>\<not> 0 < x\<close> by simp
      then show ?thesis
        using nonneg [of "- x"] by (simp add: round_double_minus)
    qed
  qed
qed

lemma ulp_exponent_le:
  assumes "x \<noteq> 0" "\<bar>x\<bar> < 2 powi (k + 1)" "- 1022 \<le> k"
  shows "ulp_exponent x \<le> k - 52"
proof -
  have "exponent \<bar>x\<bar> \<le> k"
  proof (rule ccontr)
    assume "\<not> exponent \<bar>x\<bar> \<le> k"
    then have "(2::real) powi (k + 1) \<le> 2 powi exponent \<bar>x\<bar>"
      by (intro power_int_increasing) simp_all
    then show False
      using exponent_bounds(1) [of "\<bar>x\<bar>"] assms by simp
  qed
  then show ?thesis using assms(3) by (simp add: ulp_exponent_def)
qed

lemma round_double_error:
  "\<bar>round_double x - x\<bar> \<le> 2 powi (ulp_exponent x - 1)"
proof -
  have pos: "\<bar>round_double y - y\<bar> \<le> 2 powi (ulp_exponent y - 1)" if "0 < y" for y
  proof -
    let ?q = "(2::real) powi ulp_exponent y"
    have q: "0 < ?q" by simp
    have "round_double y - y = (of_int (round_even (y / ?q)) - y / ?q) * ?q"
      using q by (simp add: round_double_pos [OF that] left_diff_distrib)
    then have "\<bar>round_double y - y\<bar> = \<bar>of_int (round_even (y / ?q)) - y / ?q\<bar> * ?q"
      using q by (simp only: abs_mult abs_of_pos)
    also have "\<dots> \<le> 1 / 2 * ?q"
      using round_even_error [of "y / ?q"] q by (intro mult_right_mono) simp_all
    also have "\<dots> = 2 powi (ulp_exponent y - 1)"
      by (simp add: power_int_diff)
    finally show ?thesis .
  qed
  show ?thesis
  proof (cases "0 < x")
    case True
    then show ?thesis by (rule pos)
  next
    case False
    show ?thesis
    proof (cases "x = 0")
      case True
      then show ?thesis by simp
    next
      case False
      then have "0 < - x" using \<open>\<not> 0 < x\<close> by simp
      from pos [OF this] show ?thesis
        by (simp add: round_double_minus abs_minus_commute)
    qed
  qed
qed

lemma round_double_error_below:
  assumes "\<bar>x\<bar> < 2 powi (k + 1)" "- 1022 \<le> k"
  shows "\<bar>round_double x - x\<bar> \<le> 2 powi (k - 53)"
proof (cases "x = 0")
  case True
  then show ?thesis by simp
next
  case False
  have "ulp_exponent x - 1 \<le> k - 53"
    using ulp_exponent_le [OF False assms] by simp
  then have "(2::real) powi (ulp_exponent x - 1) \<le> 2 powi (k - 53)"
    by (intro power_int_increasing) simp_all
  then show ?thesis
    using round_double_error [of x] by linarith
qed


lemma power_int_2_le_D:
  assumes "(2::real) powi a \<le> 2 powi b"
  shows "a \<le> b"
proof (rule ccontr)
  assume "\<not> a \<le> b"
  then have "(2::real) powi b < 2 powi a"
    by (intro power_int_strict_increasing) simp_all
  then show False using assms by simp
qed

lemma round_double_multiple:
  assumes "0 < x" "x / 2 powi ulp_exponent x = of_int M"
  shows "round_double x = x"
proof -
  have "round_double x = of_int (round_even (of_int M)) * 2 powi ulp_exponent x"
    by (simp only: round_double_pos [OF assms(1)] assms(2))
  also have "\<dots> = x / 2 powi ulp_exponent x * 2 powi ulp_exponent x"
    by (simp only: round_even_of_int assms(2))
  also have "\<dots> = x" by simp
  finally show ?thesis .
qed

lemma round_double_repr_pos:
  assumes "0 < m" "m \<le> 2 ^ 53" "- 1074 \<le> j"
  shows "round_double (of_int m * 2 powi j) = of_int m * 2 powi j"
proof -
  define x :: real where "x = of_int m * 2 powi j"
  define e where "e = ulp_exponent x"
  have x: "0 < x" using assms(1) by (simp add: x_def)
  have "\<exists>M. x / 2 powi e = of_int M"
  proof (cases "e \<le> j")
    case True
    have "x / 2 powi e = of_int m * 2 powi (j - e)"
      by (simp add: x_def power_int_diff)
    also have "\<dots> = of_int m * 2 ^ nat (j - e)"
      using True by (simp add: power_int_nonneg_exp)
    also have "\<dots> = of_int (m * 2 ^ nat (j - e))" by simp
    finally show ?thesis by blast
  next
    case False
    define k where "k = exponent x"
    have "\<bar>x\<bar> = x" using x by simp
    then have e: "e = k - 52"
      using False assms(3) by (simp add: e_def k_def ulp_exponent_def max_def split: if_splits)
    have le: "x \<le> 2 powi (53 + j)"
    proof -
      have "x \<le> 2 ^ 53 * 2 powi j"
        unfolding x_def using assms(2) by (intro mult_right_mono) simp_all
      also have "\<dots> = 2 powi (53 + j)" by (simp add: power_int_add)
      finally show ?thesis .
    qed
    have "(2::real) powi k \<le> x"
      using exponent_bounds(1) [OF x] by (simp add: k_def)
    then have "k \<le> 53 + j" using le power_int_2_le_D [of k "53 + j"] by linarith
    then have k: "k = 53 + j" using False e by simp
    have "(2::real) ^ 53 * 2 powi j \<le> of_int m * 2 powi j"
      using \<open>2 powi k \<le> x\<close> by (simp add: k x_def power_int_add)
    then have "(2::real) ^ 53 \<le> of_int m" by simp
    then have "2 ^ 53 \<le> m"
      by (metis of_int_le_iff of_int_numeral of_int_power)
    then have m: "m = 2 ^ 53" using assms(2) by simp
    have "e = j + 1" using e k by simp
    then have "x / 2 powi e = 2 ^ 53 * 2 powi j / 2 powi (j + 1)"
      by (simp add: x_def m)
    also have "\<dots> = of_int (2 ^ 52)"
      by (simp add: power_int_add)
    finally show ?thesis by blast
  qed
  then show ?thesis
    using round_double_multiple [OF x] by (auto simp: e_def x_def)
qed

lemma round_double_repr:
  assumes "\<bar>m\<bar> \<le> 2 ^ 53" "- 1074 \<le> j"
  shows "round_double (of_int m * 2 powi j) = of_int m * 2 powi j"
proof -
  consider "m = 0" | "0 < m" | "0 < - m" by linarith
  then show ?thesis
  proof cases
    case 1
    then show ?thesis by simp
  next
    case 2
    then show ?thesis using assms by (intro round_double_repr_pos) simp_all
  next
    case 3
    then have "round_double (of_int (- m) * 2 powi j) = of_int (- m) * 2 powi j"
      using assms by (intro round_double_repr_pos) simp_all
    then show ?thesis
      using round_double_minus [of "of_int m * 2 powi j"] by simp
  qed
qed

lemma round_double_has_repr:
  "\<exists>m j. \<bar>m\<bar> \<le> 2 ^ 53 \<and> - 1074 \<le> j \<and> round_double x = of_int m * 2 powi j"
proof -
  have pos: "\<exists>m j. \<bar>m\<bar> \<le> 2 ^ 53 \<and> - 1074 \<le> j \<and> round_double y = of_int m * 2 powi j"
    if y: "0 < y" for y
  proof -
    define e where "e = ulp_exponent y"
    define m where "m = round_even (y / 2 powi e)"
    have "\<bar>y\<bar> = y" using y by simp
    then have e: "exponent y - 52 \<le> e" "- 1074 \<le> e"
      by (simp_all add: e_def ulp_exponent_def)
    have "y < 2 powi (exponent y + 1)" using exponent_bounds(2) [OF y] .
    also have "\<dots> \<le> 2 powi (53 + e)"
      using e by (intro power_int_increasing) simp_all
    also have "\<dots> = 2 ^ 53 * 2 powi e" by (simp add: power_int_add)
    finally have "y / 2 powi e \<le> of_int (2 ^ 53)"
      by (simp add: field_simps)
    then have "m \<le> 2 ^ 53" unfolding m_def by (rule round_even_le)
    moreover have "0 \<le> m"
      unfolding m_def using y by (intro round_even_ge) simp
    moreover have "round_double y = of_int m * 2 powi e"
      by (simp add: round_double_pos [OF y] m_def e_def)
    ultimately show ?thesis using e(2) by (intro exI [of _ m] exI [of _ e]) simp
  qed
  consider "x = 0" | "0 < x" | "0 < - x" by linarith
  then show ?thesis
  proof cases
    case 1
    then show ?thesis by (intro exI [of _ 0]) simp
  next
    case 2
    then show ?thesis by (rule pos)
  next
    case 3
    from pos [OF this] obtain m j where
      "\<bar>m\<bar> \<le> 2 ^ 53" "- 1074 \<le> j" "round_double (- x) = of_int m * 2 powi j" by blast
    then show ?thesis
      by (intro exI [of _ "- m"] exI [of _ j]) (simp add: round_double_minus)
  qed
qed

lemma round_double_idem [simp]: "round_double (round_double x) = round_double x"
  using round_double_has_repr [of x] round_double_repr by auto

lemma round_double_of_int:
  assumes "\<bar>n\<bar> \<le> 2 ^ 53"
  shows "round_double (of_int n) = of_int n"
  using round_double_repr [OF assms, of 0] by simp

lemma round_double_max [simp]: "round_double max_double = max_double"
proof -
  have "round_double (of_int (2 ^ 53 - 1) * 2 powi 971) = of_int (2 ^ 53 - 1) * 2 powi 971"
    by (rule round_double_repr) simp_all
  then show ?thesis by (simp add: max_double_def)
qed


lemma round_even_mono:
  assumes "x \<le> y"
  shows "round_even x \<le> round_even y"
proof (cases "\<lfloor>x\<rfloor> = \<lfloor>y\<rfloor>")
  case True
  then show ?thesis using assms by (simp add: round_even_def Let_def)
next
  case False
  then have "\<lfloor>x\<rfloor> < \<lfloor>y\<rfloor>" using floor_mono [OF assms] by simp
  moreover have "round_even x \<le> \<lfloor>x\<rfloor> + 1" "\<lfloor>y\<rfloor> \<le> round_even y"
    by (simp_all add: round_even_def Let_def)
  ultimately show ?thesis by simp
qed

lemma round_double_nonneg: "0 \<le> x \<Longrightarrow> 0 \<le> round_double x"
  using round_double_abs [of x] by simp

lemma exponent_mono:
  assumes "0 < x" "x \<le> y"
  shows "exponent x \<le> exponent y"
proof (rule ccontr)
  assume "\<not> exponent x \<le> exponent y"
  then have "(2::real) powi (exponent y + 1) \<le> 2 powi exponent x"
    by (intro power_int_increasing) simp_all
  moreover have "0 < y" using assms by simp
  ultimately show False
    using exponent_bounds(1) [OF assms(1)] exponent_bounds(2) [of y] assms(2) by linarith
qed

lemma round_double_mono_pos:
  assumes "0 < x" "x \<le> y"
  shows "round_double x \<le> round_double y"
proof -
  have y: "0 < y" using assms by simp
  have ax: "\<bar>x\<bar> = x" "\<bar>y\<bar> = y" using assms by simp_all
  define ex where "ex = ulp_exponent x"
  define ey where "ey = ulp_exponent y"
  have le: "ex \<le> ey"
    using exponent_mono [OF assms] by (simp add: ex_def ey_def ulp_exponent_def ax)
  show ?thesis
  proof (cases "ex = ey")
    case True
    have "x / 2 powi ey \<le> y / 2 powi ey"
      using assms(2) by (simp add: divide_right_mono)
    then have "round_even (x / 2 powi ey) \<le> round_even (y / 2 powi ey)"
      by (rule round_even_mono)
    then have "real_of_int (round_even (x / 2 powi ey)) * 2 powi ey
                 \<le> real_of_int (round_even (y / 2 powi ey)) * 2 powi ey"
      by (intro mult_right_mono) simp_all
    then show ?thesis
      using True by (simp add: round_double_pos assms(1) y ex_def ey_def)
  next
    case False
    then have lt: "ex + 1 \<le> ey" using le by simp
    then have ey: "ey = exponent y - 52"
      by (simp add: ex_def ey_def ulp_exponent_def ax max_def split: if_splits)
    have "exponent x - 52 \<le> ex" by (simp add: ex_def ulp_exponent_def ax)
    then have "(2::real) powi (exponent x + 1) \<le> 2 powi (53 + ex)"
      by (intro power_int_increasing) simp_all
    then have "x < 2 ^ 53 * 2 powi ex"
      using exponent_bounds(2) [OF assms(1)] by (simp add: power_int_add)
    then have "x / 2 powi ex \<le> of_int (2 ^ 53)"
      by (simp add: field_simps)
    then have "round_even (x / 2 powi ex) \<le> 2 ^ 53" by (rule round_even_le)
    then have "real_of_int (round_even (x / 2 powi ex)) \<le> 2 ^ 53"
      by (metis of_int_le_iff of_int_numeral of_int_power)
    then have "round_double x \<le> 2 ^ 53 * 2 powi ex"
      by (simp add: round_double_pos [OF assms(1)] ex_def [symmetric])
    also have "\<dots> = 2 powi (ex + 53)" by (simp add: power_int_add)
    also have "\<dots> \<le> 2 powi (ey + 52)"
      using lt by (intro power_int_increasing) simp_all
    also have "\<dots> = 2 ^ 52 * 2 powi ey" by (simp add: power_int_add)
    also have "\<dots> \<le> round_double y"
    proof -
      have "(2::real) powi exponent y = 2 ^ 52 * 2 powi ey"
        by (simp add: ey power_int_diff)
      then have "of_int (2 ^ 52) \<le> y / 2 powi ey"
        using exponent_bounds(1) [OF y] by (simp add: field_simps)
      then have "2 ^ 52 \<le> round_even (y / 2 powi ey)" by (rule round_even_ge)
      then have "(2::real) ^ 52 \<le> real_of_int (round_even (y / 2 powi ey))"
        by (metis of_int_le_iff of_int_numeral of_int_power)
      then show ?thesis
        by (simp add: round_double_pos [OF y] ey_def [symmetric])
    qed
    finally show ?thesis .
  qed
qed

lemma round_double_mono:
  assumes "x \<le> y"
  shows "round_double x \<le> round_double y"
proof -
  consider "0 < x" | "x \<le> 0" "0 \<le> y" | "y < 0" by linarith
  then show ?thesis
  proof cases
    case 1
    then show ?thesis using assms by (rule round_double_mono_pos)
  next
    case 2
    have "0 \<le> round_double (- x)" using 2(1) by (intro round_double_nonneg) simp
    then have "round_double x \<le> 0" by (simp add: round_double_minus)
    then show ?thesis using round_double_nonneg [OF 2(2)] by simp
  next
    case 3
    then have "round_double (- y) \<le> round_double (- x)"
      using assms by (intro round_double_mono_pos) simp_all
    then show ?thesis by (simp add: round_double_minus)
  qed
qed

lemma round_double_1 [simp]: "round_double 1 = 1"
  using round_double_of_int [of 1] by simp

lemmas double_defs = round_double_def ulp_exponent_def exponent_def round_even_def
  mul_double_def div_double_def sub_double_def int_to_double_def

lemma int_to_double_exact: "\<bar>i\<bar> \<le> 2 ^ 53 \<Longrightarrow> int_to_double i = of_int i"
  by (simp add: int_to_double_def round_double_of_int)

lemma int_to_double_0 [simp]: "int_to_double 0 = 0"
  by (simp add: int_to_double_def)

lemma mul_double_1 [simp]: "mul_double 1 (int_to_double i) = int_to_double i"
  by (simp add: mul_double_def int_to_double_def)

lemma int_to_double_ge1: "1 \<le> i \<Longrightarrow> 1 \<le> int_to_double i"
  using round_double_mono [of 1 "of_int i"] by (simp add: int_to_double_def)

lemma int_to_double_nonpos: "i \<le> 0 \<Longrightarrow> int_to_double i \<le> 0"
  using round_double_mono [of "of_int i" 0] by (simp add: int_to_double_def)

section \<open>Properties of the cubic Bezier solver\<close>

declare newton_loop.simps [simp del]

lemma newton_loop_unfold:
  "i < 10 \<Longrightarrow> newton_loop x1 x2 x i t =
     (if converged x1 x2 x t then t else newton_loop x1 x2 x (Suc i) (newton_step x1 x2 x t))"
  by (subst newton_loop.simps)
    (simp add: converged_def newton_step_def Let_def split: option.splits)

lemma newton_loop_done: "\<not> i < 10 \<Longrightarrow> newton_loop x1 x2 x i t = t"
  by (subst newton_loop.simps) simp

lemma newton_loop_iterates:
  "i \<le> 10 \<Longrightarrow>
   \<exists>k \<le> 10 - i. newton_loop x1 x2 x i t = (newton_step x1 x2 x ^^ k) t
      \<and> (\<forall>j < k. \<not> converged x1 x2 x ((newton_step x1 x2 x ^^ j) t))
      \<and> (k < 10 - i \<longrightarrow> converged x1 x2 x ((newton_step x1 x2 x ^^ k) t))"
proof (induction "10 - i" arbitrary: i t)
  case 0
  then have "newton_loop x1 x2 x i t = t"
    by (simp add: newton_loop_done)
  with 0 show ?case by simp
next
  case (Suc n)
  then have i: "i < 10" by simp
  show ?case
  proof (cases "converged x1 x2 x t")
    case True
    with i have "newton_loop x1 x2 x i t = t"
      by (simp add: newton_loop_unfold)
    with True show ?thesis
      by (intro exI [of _ 0]) simp
  next
    case False
    let ?s = "newton_step x1 x2 x"
    have n: "n = 10 - Suc i" using Suc.hyps(2) by simp
    have "Suc i \<le> 10" using i by simp
    from Suc.hyps(1) [OF n this, of "?s t"]
    obtain k where k: "k \<le> 10 - Suc i"
      "newton_loop x1 x2 x (Suc i) (?s t) = (?s ^^ k) (?s t)"
      "\<forall>j < k. \<not> converged x1 x2 x ((?s ^^ j) (?s t))"
      "k < 10 - Suc i \<longrightarrow> converged x1 x2 x ((?s ^^ k) (?s t))"
      by auto
    have "newton_loop x1 x2 x i t = (?s ^^ Suc k) t"
      using i False k(2) by (simp add: newton_loop_unfold funpow_swap1)
    moreover have "\<forall>j < Suc k. \<not> converged x1 x2 x ((?s ^^ j) t)"
    proof (intro allI impI)
      fix j assume "j < Suc k"
      then show "\<not> converged x1 x2 x ((?s ^^ j) t)"
        using False k(3) by (cases j) (simp_all add: funpow_swap1)
    qed
    moreover have "Suc k < 10 - i \<longrightarrow> converged x1 x2 x ((?s ^^ Suc k) t)"
      using k(4) by (simp add: funpow_swap1)
    moreover have "Suc k \<le> 10 - i" using k(1) i by simp
    ultimately show ?thesis by blast
  qed
qed

text \<open>
  C5, as amended. For all control parameters and every \<open>x\<close>, the function returned by
  \<open>get_cubic_bezier\<close> returns: it runs Newton's method from \<open>t = x\<close> for some number
  \<open>k\<close> of updates \<open>t := t - f(t) / f'(t)\<close>, at most 10, none of the iterates before the
  \<open>k\<close>-th passes the test \<open>|f(t)| < 1e-6\<close>, the \<open>k\<close>-th passes it unless \<open>k = 10\<close>, and
  the result is the y component of the curve at the \<open>k\<close>-th iterate. No error is
  raised; an update that divides by \<open>f'(t) = 0\<close> makes the iterate non-finite, it stays
  so, and the result is then NaN (\<open>None\<close>).
\<close>

theorem cubic_bezier_newton:
  "\<exists>k \<le> 10.
      newton_loop x1 x2 x 0 (Some x) = (newton_step x1 x2 x ^^ k) (Some x)
    \<and> (\<forall>j < k. \<not> converged x1 x2 x ((newton_step x1 x2 x ^^ j) (Some x)))
    \<and> (k < 10 \<longrightarrow> converged x1 x2 x ((newton_step x1 x2 x ^^ k) (Some x)))
    \<and> get_cubic_bezier x1 y1 x2 y2 x
        = map_option (\<lambda>t. bezier_helper t 0 y1 y2 1) ((newton_step x1 x2 x ^^ k) (Some x))"
proof -
  from newton_loop_iterates [of 0 x1 x2 x "Some x"]
  obtain k where k: "k \<le> 10"
      "newton_loop x1 x2 x 0 (Some x) = (newton_step x1 x2 x ^^ k) (Some x)"
      "\<forall>j < k. \<not> converged x1 x2 x ((newton_step x1 x2 x ^^ j) (Some x))"
      "k < 10 \<longrightarrow> converged x1 x2 x ((newton_step x1 x2 x ^^ k) (Some x))"
    by auto
  have "get_cubic_bezier x1 y1 x2 y2 x
        = map_option (\<lambda>t. bezier_helper t 0 y1 y2 1) ((newton_step x1 x2 x ^^ k) (Some x))"
    by (simp add: get_cubic_bezier_def k(2) split: option.splits)
  with k show ?thesis by blast
qed

theorem cubic_bezier_newton_witness:
  "converged 0 1 0 (Some 0) \<and> get_cubic_bezier 0 0 1 1 0 = Some 0"
  using cubic_bezier_newton [of 0 1 0 0 1]
  by (simp add: get_cubic_bezier_def newton_loop_unfold converged_def bezier_helper_def)

text \<open>
  The division by \<open>f'(t) = 0\<close> does occur: with \<open>x1 = 2\<close>, \<open>x2 = 1\<close> and \<open>x = 0.5\<close> the
  first iteration has \<open>f = 0.75\<close> and \<open>df = 0\<close>, and the function returns NaN. Every
  number involved is a binary fraction, so the doubles of the code take these very
  values.
\<close>

theorem cubic_bezier_division_by_zero:
  "bezier_df 2 1 (1 / 2) = 0
   \<and> bezier_helper (1 / 2) 0 2 1 1 - 1 / 2 = 3 / 4
   \<and> newton_loop 2 1 (1 / 2) 0 (Some (1 / 2)) = None
   \<and> get_cubic_bezier 2 0 1 1 (1 / 2) = None"
proof -
  have df: "bezier_df 2 1 (1 / 2) = 0"
    by (simp add: bezier_df_def)
  have f: "bezier_helper (1 / 2) 0 2 1 1 - 1 / 2 = 3 / 4"
    by (simp add: bezier_helper_def Let_def)
  have none: "newton_loop 2 1 (1 / 2) i None = None" for i
  proof (induction "10 - i" arbitrary: i)
    case 0
    then show ?case by (simp add: newton_loop_done)
  next
    case (Suc n)
    then show ?case by (simp add: newton_loop_unfold converged_def newton_step_def)
  qed
  have l: "newton_loop 2 1 (1 / 2) 0 (Some (1 / 2)) = None"
    by (simp add: newton_loop_unfold converged_def newton_step_def df f none)
  show ?thesis
    by (simp add: df f l get_cubic_bezier_def)
qed

section \<open>Properties of the duration tracker\<close>

lemma get_duration_ge1: "1 \<le> get_duration p"
  by (simp add: get_duration_def get_duration_logged_def split: option.splits)

text \<open>
  C9. \<open>total_duration()\<close> is \<open>max(1, duration_ms)\<close> of the description when one is bound,
  \<open>max(1, value)\<close> of the integer option when that is bound, and 1 together with one
  logged line when neither is; it is at least 1 in every state.
\<close>

theorem get_duration_clamped:
  "get_duration_logged p =
     (case descr p of
        Some d \<Rightarrow> (max 1 (length_ms d), [])
      | None \<Rightarrow>
          (case length_opt p of
             Some v \<Rightarrow> (max 1 v, [])
           | None \<Rightarrow> (1, [''Calling methods on wf::animation::duration_t without a length''])))
   \<and> get_duration p = fst (get_duration_logged p)
   \<and> 1 \<le> get_duration p"
  by (simp add: get_duration_def get_duration_logged_def split: option.splits)

text \<open>
  C8. \<open>progress_fraction()\<close> is 1 when the tracker is unbound or elapsed, and otherwise
  the ratio of elapsed to total time, subtracted from 1 when the tracker is reversed,
  clamped to the interval from 0 to 1; \<open>progress()\<close> is 0 when reversed and elapsed, 1
  when elapsed and not reversed, and otherwise the bound easing function at the
  fraction. The code agrees with that description in every state and at every instant.
\<close>

theorem progress_pipeline:
  "get_progress_percentage p now = spec_progress_fraction p now
   \<and> progress p now = spec_progress p now
   \<and> 0 \<le> get_progress_percentage p now \<and> get_progress_percentage p now \<le> 1"
  by (auto simp: get_progress_percentage_def spec_progress_fraction_def progress_def
        spec_progress_def bound_easing_def is_ready_def clamp_def Let_def
      split: option.splits)

subsection \<open>The latch of \<open>running()\<close>\<close>

lemma sdiv_ticks_eq:
  "a sdiv ticks_per_ms = (if 0 \<le> a then a div 1000000 else - ((- a) div 1000000))"
  by (simp add: signed_divide_int_def ticks_per_ms_def sgn_if)

lemma sdiv_ticks_mono:
  assumes "a \<le> b"
  shows "a sdiv ticks_per_ms \<le> b sdiv ticks_per_ms"
proof -
  consider "0 \<le> a" | "a < 0" "0 \<le> b" | "b < 0" using assms by linarith
  then show ?thesis
  proof cases
    case 1
    then show ?thesis
      using assms by (simp add: sdiv_ticks_eq zdiv_mono1)
  next
    case 2
    have "0 \<le> (- a) div 1000000" "0 \<le> b div 1000000"
      using 2 by (simp_all add: pos_imp_zdiv_nonneg_iff)
    then show ?thesis
      using 2 by (simp add: sdiv_ticks_eq)
  next
    case 3
    then have "(- b) div 1000000 \<le> (- a) div 1000000"
      using assms by (intro zdiv_mono1) simp_all
    then show ?thesis
      using 3 assms by (simp add: sdiv_ticks_eq)
  qed
qed

lemma sdiv_ticks_cancel [simp]: "(r * ticks_per_ms) sdiv ticks_per_ms = r"
  by (simp add: signed_divide_int_def ticks_per_ms_def abs_mult sgn_mult mult_sgn_abs)

lemma is_ready_mono: "is_ready p t \<Longrightarrow> t \<le> t' \<Longrightarrow> is_ready p t'"
  using sdiv_ticks_mono [of "t - start_point p" "t' - start_point p"]
  by (simp add: is_ready_def get_elapsed_def)

lemma is_ready_is_running_update [simp]:
  "is_ready (p\<lparr>is_running := b\<rparr>) t = is_ready p t"
  by (simp add: is_ready_def get_elapsed_def get_duration_def get_duration_logged_def
      split: option.splits)

lemma poll_stopped:
  "\<not> is_running p \<Longrightarrow> \<forall>t \<in> set ts. is_ready p t \<Longrightarrow>
   fst (poll_running p ts) = replicate (length ts) False"
proof (induction ts arbitrary: p)
  case Nil
  then show ?case by simp
next
  case (Cons t ts)
  have "fst (poll_running (p\<lparr>is_running := False\<rparr>) ts) = replicate (length ts) False"
    by (rule Cons.IH) (use Cons.prems in simp_all)
  then show ?case
    using Cons.prems by (auto simp: duration_running_def split: prod.splits)
qed

lemma poll_armed:
  "is_running p \<Longrightarrow> sorted ts \<Longrightarrow>
   fst (poll_running p ts) =
     (let k = length (takeWhile (\<lambda>t. \<not> is_ready p t) ts)
      in replicate (min (Suc k) (length ts)) True @ replicate (length ts - Suc k) False)"
proof (induction ts arbitrary: p)
  case Nil
  then show ?case by simp
next
  case (Cons t ts)
  show ?case
  proof (cases "is_ready p t")
    case True
    have all: "\<forall>t' \<in> set ts. is_ready (p\<lparr>is_running := False\<rparr>) t'"
      using Cons.prems(2) True by (auto intro: is_ready_mono)
    have "fst (poll_running (p\<lparr>is_running := False\<rparr>) ts) = replicate (length ts) False"
      by (rule poll_stopped) (use all in simp_all)
    then show ?thesis
      using True Cons.prems(1) by (auto simp: duration_running_def split: prod.splits)
  next
    case False
    have "fst (poll_running p ts) =
      (let k = length (takeWhile (\<lambda>t. \<not> is_ready p t) ts)
       in replicate (min (Suc k) (length ts)) True @ replicate (length ts - Suc k) False)"
      using Cons.IH [of p] Cons.prems by simp
    then show ?thesis
      using False by (auto simp: duration_running_def Let_def split: prod.splits)
  qed
qed

text \<open>
  C3. After \<open>start()\<close> at the instant \<open>t0\<close>, a caller polls \<open>running()\<close> at the instants
  \<open>ts\<close>, which do not decrease. With \<open>k\<close> the number of leading polls made while the
  elapsed time is strictly below the total duration, the first \<open>k\<close> answers are true, the
  next answer (the first poll at or after the end) is true once more, and every later
  answer is false. The state before \<open>start()\<close> is arbitrary, so the same holds after
  every later \<open>start()\<close>.
\<close>

theorem running_latch:
  assumes "sorted ts"
  shows "fst (poll_running (duration_start p t0) ts) =
     (let k = length (takeWhile (\<lambda>t. get_elapsed (duration_start p t0) t
                                        < get_duration (duration_start p t0)) ts)
      in replicate (min (Suc k) (length ts)) True @ replicate (length ts - Suc k) False)"
proof -
  have "is_running (duration_start p t0)"
    by (simp add: duration_start_def)
  from poll_armed [OF this assms] show ?thesis
    by (simp add: is_ready_def not_le)
qed

theorem running_latch_witness:
  "sorted [10000000, 500000000, 1000000000, 1200000000, 1500000000 :: int]
   \<and> fst (poll_running (duration_start (duration_of_length (Some 1000) (Some smoothing_linear)) 0)
            [10000000, 500000000, 1000000000, 1200000000, 1500000000])
     = [True, True, True, False, False]"
proof -
  have s: "sorted [10000000, 500000000, 1000000000, 1200000000, 1500000000 :: int]"
    by simp
  show ?thesis
    using s running_latch [OF s, of "duration_of_length (Some 1000) (Some smoothing_linear)" 0]
    by (simp add: get_elapsed_def get_duration_def get_duration_logged_def duration_start_def
        duration_of_length_def sdiv_ticks_eq)
qed

subsection \<open>Reversal\<close>

lemma get_duration_reverse [simp]: "get_duration (duration_reverse p now) = get_duration p"
  by (simp add: duration_reverse_def get_duration_def get_duration_logged_def Let_def
      split: option.splits)

lemma reverse_fields [simp]:
  "descr (duration_reverse p now) = descr p"
  "length_opt (duration_reverse p now) = length_opt p"
  "smooth_function (duration_reverse p now) = smooth_function p"
  "reverse (duration_reverse p now) = (\<not> reverse p)"
  "start_point (duration_reverse p now) =
     now - (get_duration p - min (get_elapsed p now) (get_duration p)) * ticks_per_ms"
  by (simp_all add: duration_reverse_def Let_def)

lemma get_elapsed_reverse:
  "get_elapsed (duration_reverse p now) now =
     get_duration p - min (get_elapsed p now) (get_duration p)"
  by (simp add: get_elapsed_def)

lemma progress_eq:
  "progress p now =
     (if get_duration p \<le> get_elapsed p now then Inr (Some (if reverse p then 0 else 1))
      else call (bound_easing p) (get_progress_percentage p now))"
  by (simp add: progress_def bound_easing_def is_ready_def split: option.splits)

lemma bound_easing_reverse [simp]: "bound_easing (duration_reverse p now) = bound_easing p"
  by (simp add: bound_easing_def split: option.splits)

text \<open>The fraction of a tracker that has not advanced is the starting point of its direction.\<close>

lemma percentage_at_start:
  assumes "length_opt p \<noteq> None \<or> descr p \<noteq> None" and "get_elapsed p now \<le> 0"
  shows "get_progress_percentage p now = (if reverse p then 1 else 0)"
proof -
  let ?E = "int_to_double (get_elapsed p now)" and ?D = "int_to_double (get_duration p)"
  have d: "1 \<le> get_duration p" by (rule get_duration_ge1)
  have "?E \<le> 0" "1 \<le> ?D"
    using assms(2) d by (simp_all add: int_to_double_nonpos int_to_double_ge1)
  then have "?E / ?D \<le> 0" by (simp add: divide_le_0_iff)
  then have f: "div_double ?E ?D \<le> 0"
    using round_double_mono [of "?E / ?D" 0] by (simp add: div_double_def)
  then have "1 \<le> sub_double 1 (div_double ?E ?D)"
    using round_double_mono [of 1 "1 - div_double ?E ?D"] by (simp add: sub_double_def)
  then show ?thesis
    using assms d f by (auto simp: get_progress_percentage_def is_ready_def clamp_def Let_def)
qed

text \<open>
  In flight, the fraction after the call is computed from the remaining time. It is
  the fraction before the call in exact arithmetic; as doubles the two are at most
  three half units in the last place apart.
\<close>

lemma round_double_unit_error:
  assumes "0 \<le> x" "x \<le> 1"
  shows "\<bar>round_double x - x\<bar> \<le> 1 / 2 ^ 54"
proof (cases "x = 1")
  case True
  then show ?thesis by simp
next
  case False
  then have "\<bar>x\<bar> < 2 powi (- 1 + 1)" using assms by simp
  from round_double_error_below [OF this] show ?thesis
    by (simp add: power_int_minus_divide)
qed

lemma round_double_unit:
  assumes "0 \<le> x" "x \<le> 1"
  shows "0 \<le> round_double x" "round_double x \<le> 1"
  using round_double_mono [OF assms(1)] round_double_mono [OF assms(2)] by simp_all

lemma fraction_flip:
  fixes e d :: int
  assumes "0 < e" "e < d" "d \<le> 2147483647"
  shows "\<bar>sub_double 1 (div_double (int_to_double (d - e)) (int_to_double d))
           - div_double (int_to_double e) (int_to_double d)\<bar> \<le> 3 / 2 ^ 54"
proof -
  define a where "a = real_of_int e / real_of_int d"
  define b where "b = real_of_int (d - e) / real_of_int d"
  have ab: "0 \<le> a" "a \<le> 1" "0 \<le> b" "b \<le> 1" "b = 1 - a"
    using assms by (simp_all add: a_def b_def field_simps)
  have x: "int_to_double e = of_int e" "int_to_double d = of_int d"
    "int_to_double (d - e) = of_int (d - e)"
    using assms by (simp_all add: int_to_double_exact)
  define y where "y = 1 - round_double b"
  have y: "0 \<le> y" "y \<le> 1"
    using round_double_unit [OF ab(3,4)] by (simp_all add: y_def)
  have "\<bar>round_double a - a\<bar> \<le> 1 / 2 ^ 54"
    by (rule round_double_unit_error [OF ab(1,2)])
  moreover have "\<bar>round_double b - b\<bar> \<le> 1 / 2 ^ 54"
    by (rule round_double_unit_error [OF ab(3,4)])
  moreover have "\<bar>round_double y - y\<bar> \<le> 1 / 2 ^ 54"
    by (rule round_double_unit_error [OF y])
  ultimately have "\<bar>round_double y - round_double a\<bar> \<le> 3 / 2 ^ 54"
    using ab(5) unfolding y_def by linarith
  then show ?thesis
    by (simp only: x sub_double_def div_double_def a_def b_def y_def)
qed

lemma clamp_diff: "\<bar>clamp u 0 1 - clamp v 0 1\<bar> \<le> \<bar>u - v\<bar>"
  by (simp add: clamp_def)

lemma percentage_flip:
  assumes "length_opt p \<noteq> None \<or> descr p \<noteq> None"
      and "0 < get_elapsed p now" and "get_elapsed p now < get_duration p"
      and "get_duration p \<le> 2147483647"
  shows "\<bar>get_progress_percentage (duration_reverse p now) now - get_progress_percentage p now\<bar>
           \<le> 3 / 2 ^ 54"
proof -
  let ?d = "get_duration p" and ?e = "get_elapsed p now"
  have e': "get_elapsed (duration_reverse p now) now = ?d - ?e"
    using assms by (simp add: get_elapsed_reverse)
  let ?F = "div_double (int_to_double ?e) (int_to_double ?d)"
  let ?G = "div_double (int_to_double (?d - ?e)) (int_to_double ?d)"
  have p: "get_progress_percentage p now = clamp (if reverse p then sub_double 1 ?F else ?F) 0 1"
    using assms by (auto simp: get_progress_percentage_def is_ready_def Let_def)
  have q: "get_progress_percentage (duration_reverse p now) now
             = clamp (if reverse p then ?G else sub_double 1 ?G) 0 1"
    using assms by (auto simp: get_progress_percentage_def is_ready_def Let_def e')
  have f: "\<bar>sub_double 1 ?G - ?F\<bar> \<le> 3 / 2 ^ 54"
    by (rule fraction_flip) (use assms in simp_all)
  have g: "\<bar>?G - sub_double 1 ?F\<bar> \<le> 3 / 2 ^ 54"
    using fraction_flip [of "?d - ?e" ?d] assms by (simp add: abs_minus_commute)
  show ?thesis
  proof (cases "reverse p")
    case True
    then show ?thesis
      using clamp_diff [of ?G "sub_double 1 ?F"] g by (simp add: p q)
  next
    case False
    then show ?thesis
      using clamp_diff [of "sub_double 1 ?G" ?F] f by (simp add: p q)
  qed
qed

lemma progress_reverse_iff:
  assumes "length_opt p \<noteq> None \<or> descr p \<noteq> None"
  shows "progress (duration_reverse p now) now = progress p now \<longleftrightarrow>
     (if get_duration p \<le> get_elapsed p now
      then call (bound_easing p) (if reverse p then 0 else 1)
             = Inr (Some (if reverse p then 0 else 1))
      else if get_elapsed p now \<le> 0
      then call (bound_easing p) (if reverse p then 1 else 0)
             = Inr (Some (if reverse p then 1 else 0))
      else call (bound_easing p) (get_progress_percentage (duration_reverse p now) now)
             = call (bound_easing p) (get_progress_percentage p now))"
proof -
  let ?d = "get_duration p" and ?e = "get_elapsed p now"
  let ?q = "duration_reverse p now"
  have d: "0 < ?d" using get_duration_ge1 [of p] by simp
  have b: "length_opt ?q \<noteq> None \<or> descr ?q \<noteq> None" using assms by simp
  consider (start) "?e \<le> 0" | (flight) "0 < ?e" "?e < ?d" | (finished) "?d \<le> ?e" by linarith
  then show ?thesis
  proof cases
    case start
    have e': "get_elapsed ?q now = ?d - ?e"
      using start d by (simp add: get_elapsed_reverse)
    show ?thesis
      using start d percentage_at_start [OF assms start]
      by (auto simp: progress_eq e')
  next
    case flight
    have e': "get_elapsed ?q now = ?d - ?e"
      using flight by (simp add: get_elapsed_reverse)
    show ?thesis
      using flight by (simp add: progress_eq e')
  next
    case finished
    have e': "get_elapsed ?q now = 0"
      using finished by (simp add: get_elapsed_reverse)
    have "get_progress_percentage ?q now = (if reverse p then 0 else 1)"
      using percentage_at_start [OF b, of now] by (simp add: e')
    then show ?thesis
      using finished d by (auto simp: progress_eq e')
  qed
qed

text \<open>
  C4, as amended. \<open>reverse_direction()\<close> sets \<open>start_point\<close> to \<open>now - remaining\<close> with
  \<open>remaining = total_duration() - min(elapsed(), total_duration())\<close> milliseconds, so that
  the time elapsed from the new start point is the old remaining time, and toggles the
  reverse flag. For a bound tracker, at the instant of the call: the value of a timed
  transition bound to it is the same after the call as before it whenever \<open>progress()\<close>
  is; and \<open>progress()\<close> is the same exactly when, for a tracker that has elapsed, the
  bound easing function maps the end point of its direction (1, or 0 when reversed) to
  itself, for a tracker that has not advanced, it maps the starting point of its
  direction (0, or 1 when reversed) to itself, and for a tracker in flight, it takes the
  same value at the progress fraction before and after the call. These two fractions
  are equal in exact arithmetic; as the doubles that the code computes, for a duration
  that is an \<open>int\<close>, they are at most \<open>3 / 2^54\<close> apart.
\<close>

theorem reverse_continuity:
  assumes "length_opt p \<noteq> None \<or> descr p \<noteq> None"
  shows "start_point (duration_reverse p now)
           = now - (get_duration p - min (get_elapsed p now) (get_duration p)) * ticks_per_ms
       \<and> get_elapsed (duration_reverse p now) now
           = get_duration p - min (get_elapsed p now) (get_duration p)
       \<and> reverse (duration_reverse p now) = (\<not> reverse p)
       \<and> (progress (duration_reverse p now) now = progress p now \<longrightarrow>
            transition_value tt (duration_reverse p now) now = transition_value tt p now)
       \<and> (progress (duration_reverse p now) now = progress p now \<longleftrightarrow>
            (if get_duration p \<le> get_elapsed p now
             then call (bound_easing p) (if reverse p then 0 else 1)
                    = Inr (Some (if reverse p then 0 else 1))
             else if get_elapsed p now \<le> 0
             then call (bound_easing p) (if reverse p then 1 else 0)
                    = Inr (Some (if reverse p then 1 else 0))
             else call (bound_easing p) (get_progress_percentage (duration_reverse p now) now)
                    = call (bound_easing p) (get_progress_percentage p now)))
       \<and> (0 < get_elapsed p now \<and> get_elapsed p now < get_duration p
            \<and> get_duration p \<le> 2147483647 \<longrightarrow>
            \<bar>get_progress_percentage (duration_reverse p now) now
               - get_progress_percentage p now\<bar> \<le> 3 / 2 ^ 54)"
proof -
  have "progress (duration_reverse p now) now = progress p now \<longrightarrow>
        transition_value tt (duration_reverse p now) now = transition_value tt p now"
    by (simp add: transition_value_def)
  then show ?thesis
    using progress_reverse_iff [OF assms, of now] percentage_flip [OF assms, of now]
    by (simp add: get_elapsed_reverse)
qed

theorem reverse_continuity_witness:
  "length_opt linear_tracker = Some 1000
   \<and> get_elapsed linear_tracker 250000000 = 250 \<and> get_duration linear_tracker = 1000
   \<and> get_elapsed (duration_reverse linear_tracker 250000000) 250000000 = 750
   \<and> reverse (duration_reverse linear_tracker 250000000)
   \<and> get_progress_percentage (duration_reverse linear_tracker 250000000) 250000000 = 1 / 4
   \<and> get_progress_percentage linear_tracker 250000000 = 1 / 4
   \<and> progress (duration_reverse linear_tracker 250000000) 250000000 = Inr (Some (1 / 4))
   \<and> progress linear_tracker 250000000 = Inr (Some (1 / 4))
   \<and> transition_value \<lparr>t_start = 0, t_end = 8\<rparr> (duration_reverse linear_tracker 250000000) 250000000
       = Inr (Some 2)
   \<and> transition_value \<lparr>t_start = 0, t_end = 8\<rparr> linear_tracker 250000000 = Inr (Some 2)"
proof -
  have b: "length_opt linear_tracker \<noteq> None \<or> descr linear_tracker \<noteq> None"
    by (simp add: linear_tracker_def duration_start_def duration_of_length_def)
  have e: "get_elapsed linear_tracker 250000000 = 250" "get_duration linear_tracker = 1000"
    by (simp_all add: linear_tracker_def duration_start_def duration_of_length_def
        get_elapsed_def get_duration_def get_duration_logged_def sdiv_ticks_eq)
  have p: "get_progress_percentage linear_tracker 250000000 = 1 / 4"
    by (simp add: is_ready_def get_elapsed_def
        get_duration_def get_duration_logged_def get_progress_percentage_def clamp_def
        linear_tracker_def duration_start_def
        duration_of_length_def sdiv_ticks_eq double_defs)
  have q: "get_progress_percentage (duration_reverse linear_tracker 250000000) 250000000 = 1 / 4"
    by (simp add: is_ready_def get_elapsed_def duration_reverse_def
        get_duration_def get_duration_logged_def get_progress_percentage_def clamp_def
        linear_tracker_def duration_start_def
        duration_of_length_def sdiv_ticks_eq ticks_per_ms_def double_defs)
  have f: "bound_easing linear_tracker = Some smoothing_linear"
    by (simp add: bound_easing_def linear_tracker_def duration_start_def duration_of_length_def)
  have g: "progress linear_tracker 250000000 = Inr (Some (1 / 4))"
    by (simp add: progress_eq e p f call_def smoothing_linear_def)
  have v: "transition_value \<lparr>t_start = 0, t_end = 8\<rparr> linear_tracker 250000000 = Inr (Some 2)"
    by (simp add: transition_value_def g)
  have l: "length_opt linear_tracker = Some 1000" "\<not> reverse linear_tracker"
    by (simp_all add: linear_tracker_def duration_start_def duration_of_length_def)
  show ?thesis
    using reverse_continuity [OF b, of 250000000 "\<lparr>t_start = 0, t_end = 8\<rparr>"] v e p q f g l
    by simp
qed

text \<open>
  The claim as stated fails at the very start of a sigmoid animation: before the call
  the value is \<open>sigmoid(0)\<close>, which is positive, and after it the tracker has elapsed in
  the reversed direction and the value is 0.
\<close>

theorem reverse_jump_counterexample:
  "transition_value \<lparr>t_start = 0, t_end = 1\<rparr> (duration_reverse sigmoid_tracker 0) 0
     = Inr (Some 0)
   \<and> transition_value \<lparr>t_start = 0, t_end = 1\<rparr> sigmoid_tracker 0
     = Inr (Some ((1 + exp (- 6)) / (1 + exp 6)))
   \<and> (1 + exp (- 6)) / (1 + exp 6) \<noteq> (0 :: real)"
proof -
  have "(0::real) < 1 + exp (- 6)" "(0::real) < 1 + exp 6"
    by (simp_all add: add_pos_pos)
  then show ?thesis
    by (simp add: transition_value_def progress_def is_ready_def get_elapsed_def
        get_duration_def get_duration_logged_def sigmoid_tracker_def duration_start_def
        duration_of_descr_def duration_reverse_def get_progress_percentage_def clamp_def
        call_def sigmoid_def sigmoid_max_def Let_def mul_double_def div_double_def
        sub_double_def)
qed

text \<open>
  In flight the two fractions do differ as doubles: one millisecond into a forward
  animation of 1000 milliseconds the fraction is the double nearest to 0.001, and after
  the call it is 1 minus the double nearest to 0.999.
\<close>

lemma reverse_fraction_rounding:
  "get_progress_percentage linear_tracker 1000000 = 1152921504606847 / 1152921504606846976
   \<and> get_progress_percentage (duration_reverse linear_tracker 1000000) 1000000
       = 9007199254741 / 9007199254740992"
  by (simp add: is_ready_def get_elapsed_def duration_reverse_def
      get_duration_def get_duration_logged_def get_progress_percentage_def clamp_def
      linear_tracker_def duration_start_def duration_of_length_def sdiv_ticks_eq
      ticks_per_ms_def double_defs)

section \<open>Properties of the streams and the conversions\<close>

lemmas stream_defs = istringstream_def sentry_def get_string_def get_double_def scan_float_def
  take_fraction_def scan_exponent_def take_sign_def isspace_def isdigit_def digit_value_def
  digits_value_def stored_def max_double_def

lemmas codec_defs = from_string_def from_string_int_def read_header_def read_easing_def
  read_params_def easing_map_def double_to_int_def

subsection \<open>Digits\<close>

lemma digit_char_cases:
  assumes "d < 10"
  shows "isdigit (digit_char d) \<and> digit_value (digit_char d) = d"
proof -
  have "d \<in> {0, 1, 2, 3, 4, 5, 6, 7, 8, 9}" using assms by auto
  then show ?thesis
    by (auto simp: digit_char_def digit_value_def isdigit_def)
qed

lemma isdigit_digit_char [simp]: "d < 10 \<Longrightarrow> isdigit (digit_char d)"
  by (simp add: digit_char_cases)

lemma digit_value_digit_char [simp]: "d < 10 \<Longrightarrow> digit_value (digit_char d) = d"
  by (simp add: digit_char_cases)

lemma isdigit_not_special:
  "isdigit c \<Longrightarrow> \<not> isspace c \<and> c \<noteq> CHR ''-'' \<and> c \<noteq> CHR ''+'' \<and> c \<noteq> CHR ''.''
     \<and> c \<noteq> CHR ''e'' \<and> c \<noteq> CHR ''E'' \<and> c \<noteq> CHR ''m''"
  by (auto simp: isdigit_def isspace_def)

declare string_of_nat.simps [simp del]

lemma string_of_nat_numeral [simp]:
  "string_of_nat (numeral k) =
     (if (numeral k :: nat) < 10 then [digit_char (numeral k)]
      else string_of_nat (numeral k div 10) @ [digit_char (numeral k mod 10)])"
  "string_of_nat 0 = [digit_char 0]"
  "string_of_nat (Suc 0) = [digit_char (Suc 0)]"
  by (subst string_of_nat.simps, simp)+

lemma string_of_nat_digits: "list_all isdigit (string_of_nat n)"
  by (induction n rule: string_of_nat.induct) (subst string_of_nat.simps, simp)

lemma string_of_nat_not_Nil [simp]: "string_of_nat n \<noteq> []"
  by (subst string_of_nat.simps) simp

lemma digits_value_Nil [simp]: "digits_value [] = 0"
  by (simp add: digits_value_def)

lemma digits_value_snoc: "digits_value (ds @ [c]) = 10 * digits_value ds + digit_value c"
  by (simp add: digits_value_def)

lemma digits_value_string_of_nat [simp]: "digits_value (string_of_nat n) = n"
proof (induction n rule: string_of_nat.induct)
  case (1 n)
  show ?case
  proof (cases "n < 10")
    case True
    then show ?thesis
      by (subst string_of_nat.simps) (simp add: digits_value_def)
  next
    case False
    with 1 show ?thesis
      by (subst string_of_nat.simps) (simp add: digits_value_snoc)
  qed
qed

lemma takeWhile_digits:
  "list_all isdigit ds \<Longrightarrow> r = [] \<or> \<not> isdigit (hd r) \<Longrightarrow> takeWhile isdigit (ds @ r) = ds"
  by (induction ds) (auto simp: takeWhile_eq_Nil_iff neq_Nil_conv)

lemma dropWhile_digits:
  "list_all isdigit ds \<Longrightarrow> r = [] \<or> \<not> isdigit (hd r) \<Longrightarrow> dropWhile isdigit (ds @ r) = r"
  by (induction ds) (auto simp: dropWhile_eq_self_iff neq_Nil_conv)

lemma hd_string_of_nat: "isdigit (hd (string_of_nat n))"
  using string_of_nat_digits [of n] string_of_nat_not_Nil [of n]
  by (cases "string_of_nat n") simp_all

text \<open>The head of the decimal numeral of an integer.\<close>

lemma to_string_int_cases:
  "(\<exists>ds. to_string_int i = CHR ''-'' # ds \<and> ds \<noteq> [] \<and> list_all isdigit ds \<and> i < 0
          \<and> int (digits_value ds) = - i)
   \<or> (to_string_int i \<noteq> [] \<and> list_all isdigit (to_string_int i) \<and> 0 \<le> i
          \<and> int (digits_value (to_string_int i)) = i)"
  by (simp add: to_string_int_def string_of_nat_digits)


subsection \<open>Reading a decimal numeral\<close>

lemma no_float_char_digit: "no_float_char r \<Longrightarrow> r = [] \<or> \<not> isdigit (hd r)"
  by (cases r) (simp_all add: no_float_char_def)

lemma take_fraction_none: "no_float_char r \<Longrightarrow> take_fraction r = ([], r)"
  by (cases r) (simp_all add: no_float_char_def take_fraction_def)

lemma scan_exponent_none:
  "no_float_char r \<Longrightarrow> scan_exponent b m r = (if b then Some m else None, r)"
  by (cases r) (simp_all add: no_float_char_def scan_exponent_def)

lemma scan_float_unsigned:
  assumes "list_all isdigit ds" "ds \<noteq> []" "no_float_char r"
  shows "scan_float (ds @ r) = (Some (real (digits_value ds)), r)"
proof -
  obtain c ds' where ds: "ds = c # ds'" using assms(2) by (cases ds) auto
  have c: "isdigit c" using assms(1) ds by simp
  have sign: "take_sign (ds @ r) = (False, ds @ r)"
    using isdigit_not_special [OF c] by (simp add: take_sign_def ds)
  note r = no_float_char_digit [OF assms(3)]
  show ?thesis
    by (simp add: scan_float_def sign takeWhile_digits [OF assms(1) r]
        dropWhile_digits [OF assms(1) r] assms(2) take_fraction_none [OF assms(3)]
        scan_exponent_none [OF assms(3)])
qed

lemma scan_float_negative:
  assumes "list_all isdigit ds" "ds \<noteq> []" "no_float_char r"
  shows "scan_float (CHR ''-'' # ds @ r) = (Some (- real (digits_value ds)), r)"
proof -
  have sign: "take_sign (CHR ''-'' # ds @ r) = (True, ds @ r)"
    by (simp add: take_sign_def)
  note r = no_float_char_digit [OF assms(3)]
  show ?thesis
    by (simp add: scan_float_def sign takeWhile_digits [OF assms(1) r]
        dropWhile_digits [OF assms(1) r] assms(2) take_fraction_none [OF assms(3)]
        scan_exponent_none [OF assms(3)])
qed

lemma scan_float_int:
  assumes "no_float_char r"
  shows "scan_float (to_string_int i @ r) = (Some (real_of_int i), r)"
proof (cases "i < 0")
  case True
  have "real (digits_value (string_of_nat (nat (- i)))) = - real_of_int i"
    using True by simp
  then show ?thesis
    using True scan_float_negative [OF string_of_nat_digits string_of_nat_not_Nil assms, of "nat (- i)"]
    by (simp add: to_string_int_def)
next
  case False
  have "real (digits_value (string_of_nat (nat i))) = real_of_int i"
    using False by simp
  then show ?thesis
    using False scan_float_unsigned [OF string_of_nat_digits string_of_nat_not_Nil assms, of "nat i"]
    by (simp add: to_string_int_def)
qed

lemma to_string_int_not_Nil [simp]: "to_string_int i \<noteq> []"
  by (simp add: to_string_int_def)

lemma hd_to_string_int_not_space: "\<not> isspace (hd (to_string_int i))"
  using isdigit_not_special [OF hd_string_of_nat]
  by (simp add: to_string_int_def isspace_def)

lemma dropWhile_isspace_to_string_int [simp]:
  "dropWhile isspace (to_string_int i @ r) = to_string_int i @ r"
  using hd_to_string_int_not_space [of i] to_string_int_not_Nil [of i]
  by (cases "to_string_int i") simp_all

lemma sentry_good:
  assumes "\<not> eofbit st" "\<not> failbit st" "dropWhile isspace (buf st) \<noteq> []"
  shows "sentry st = (st\<lparr>buf := dropWhile isspace (buf st)\<rparr>, True)"
  using assms by (cases "dropWhile isspace (buf st)") (simp_all add: sentry_def)

subsection \<open>The doubles that an extraction stores\<close>

lemma max_double_ge: "2 ^ 53 \<le> max_double"
  by (simp add: max_double_def)

lemma is_double_abs: "is_double x \<Longrightarrow> is_double \<bar>x\<bar>"
  using round_double_abs [of x] by (simp add: is_double_def)

lemma is_double_round: "\<bar>round_double v\<bar> \<le> max_double \<Longrightarrow> is_double (round_double v)"
  by (simp add: is_double_def)

lemma is_double_of_int: "\<bar>i\<bar> \<le> 2 ^ 53 \<Longrightarrow> is_double (of_int i)"
proof -
  assume i: "\<bar>i\<bar> \<le> 2 ^ 53"
  then have "\<bar>real_of_int i\<bar> \<le> real_of_int (2 ^ 53)"
    by (simp only: of_int_abs [symmetric] of_int_le_iff)
  then have "\<bar>real_of_int i\<bar> \<le> max_double"
    using max_double_ge by simp
  then show ?thesis
    using i by (simp add: is_double_def round_double_of_int)
qed

lemma is_double_basic [simp]:
  "is_double 0" "is_double 1" "is_double max_double" "is_double (- max_double)"
  using max_double_ge by (simp_all add: is_double_def round_double_minus)

lemma get_double_is_double:
  assumes "get_double st = (st', Some v)"
  shows "is_double v"
proof -
  have "is_double (sgn u * max_double)" for u :: real
    by (cases "u = 0"; cases "0 < u") (simp_all add: sgn_if)
  then show ?thesis
    using assms
    by (auto simp: get_double_def is_double_round not_less
        split: prod.splits bool.splits option.splits if_splits)
qed

lemma get_double_int:
  assumes "no_float_char r" "\<bar>i\<bar> \<le> 2 ^ 53"
  shows "get_double (istringstream (to_string_int i @ r))
         = (\<lparr>buf = r, eofbit = (r = []), failbit = False\<rparr>, Some (real_of_int i))"
proof -
  have "sentry (istringstream (to_string_int i @ r))
        = (\<lparr>buf = to_string_int i @ r, eofbit = False, failbit = False\<rparr>, True)"
    by (subst sentry_good) (simp_all add: istringstream_def)
  moreover have "round_double (real_of_int i) = real_of_int i"
    "\<not> max_double < \<bar>real_of_int i\<bar>"
    using is_double_of_int [OF assms(2)] by (simp_all add: is_double_def)
  ultimately show ?thesis
    by (simp add: get_double_def scan_float_int [OF assms(1)])
qed

section \<open>Properties of the codec\<close>

declare description_eq.simps [simp del]

lemma map_of_easing_map_bezier [simp]: "map_of easing_map ''cubic-bezier'' = None"
  by (simp add: easing_map_def)

lemma map_of_easing_map_circle [simp]: "map_of easing_map ''circle'' = Some circle"
  by (simp add: easing_map_def)

text \<open>
  C6. \<open>from_string\<close> on a text whose third parameter of \<open>cubic-bezier\<close> is present and
  cannot be read: the text is accepted, and the parameter is 0 and not its default 1
  (the fourth, which is not read any more, keeps its default). The same text without
  the unreadable parameter gives both missing parameters their defaults.
\<close>

theorem unreadable_parameter_is_zero:
  "from_string dts ''5 s cubic-bezier 0.5 0.25 abc''
     = Inr (Some \<lparr>length_ms = 5000, easing = Some (get_cubic_bezier (1 / 2) (1 / 4) 0 1),
                  easing_name = bezier_name dts (1 / 2) (1 / 4) 0 1\<rparr>)
   \<and> from_string dts ''5 s cubic-bezier 0.5 0.25''
     = Inr (Some \<lparr>length_ms = 5000, easing = Some (get_cubic_bezier (1 / 2) (1 / 4) 1 1),
                  easing_name = bezier_name dts (1 / 2) (1 / 4) 1 1\<rparr>)"
  by (simp add: stream_defs codec_defs double_defs)

text \<open>
  C7. \<open>from_string\<close> on the four texts the specification names, which it rejects, and
  on a text with content left unread after an unreadable parameter, which it accepts: the
  failed extraction leaves \<open>failbit\<close> set, so the test for trailing data reads nothing.
\<close>

theorem trailing_content_accepted:
  "from_string dts ''abc'' = Inr None
   \<and> from_string dts ''5 x'' = Inr None
   \<and> from_string dts ''5 s unknown-easing'' = Inr None
   \<and> from_string dts ''5 s cubic-bezier 0.1 0.2 0.3 0.4 extra'' = Inr None
   \<and> from_string dts ''5 s linear extra'' = Inr None
   \<and> from_string dts ''5 s cubic-bezier 0.1 abc''
       = Inr (Some \<lparr>length_ms = 5000,
                    easing = Some (get_cubic_bezier (round_double (1 / 10)) 0 1 1),
                    easing_name = bezier_name dts (round_double (1 / 10)) 0 1 1\<rparr>)"
  by (simp add: stream_defs codec_defs double_defs)

text \<open>
  C1. \<open>operator==\<close> on descriptions that \<open>from_string\<close> returns, the receiver a cubic
  Bezier curve and the names different: it answers true although the first control
  coordinates are 0.1 and 0.9, and true again although the other description has
  another duration and the easing \<open>linear\<close>.
\<close>

theorem equality_ignores_other:
  "from_string to_string_fixed ''300 ms cubic-bezier 0.1 0.2 0.3 0.4''
     = Inr (Some \<lparr>length_ms = 300,
             easing = Some (get_cubic_bezier (round_double (1 / 10)) (round_double (2 / 10))
                              (round_double (3 / 10)) (round_double (4 / 10))),
             easing_name = ''cubic-bezier 0.100000 0.200000 0.300000 0.400000''\<rparr>)
   \<and> from_string to_string_fixed ''300 ms cubic-bezier 0.9 0.2 0.3 0.4''
     = Inr (Some \<lparr>length_ms = 300,
             easing = Some (get_cubic_bezier (round_double (9 / 10)) (round_double (2 / 10))
                              (round_double (3 / 10)) (round_double (4 / 10))),
             easing_name = ''cubic-bezier 0.900000 0.200000 0.300000 0.400000''\<rparr>)
   \<and> description_eq
       \<lparr>length_ms = 300,
        easing = Some (get_cubic_bezier (round_double (1 / 10)) (round_double (2 / 10))
                         (round_double (3 / 10)) (round_double (4 / 10))),
        easing_name = ''cubic-bezier 0.100000 0.200000 0.300000 0.400000''\<rparr>
       \<lparr>length_ms = 300,
        easing = Some (get_cubic_bezier (round_double (9 / 10)) (round_double (2 / 10))
                         (round_double (3 / 10)) (round_double (4 / 10))),
        easing_name = ''cubic-bezier 0.900000 0.200000 0.300000 0.400000''\<rparr> = Some True
   \<and> description_eq
       \<lparr>length_ms = 300,
        easing = Some (get_cubic_bezier (round_double (1 / 10)) (round_double (2 / 10))
                         (round_double (3 / 10)) (round_double (4 / 10))),
        easing_name = ''cubic-bezier 0.100000 0.200000 0.300000 0.400000''\<rparr>
       \<lparr>length_ms = 200, easing = Some smoothing_linear, easing_name = ''linear''\<rparr> = Some True"
proof -
  have "description_eq
       \<lparr>length_ms = 300, easing = f,
        easing_name = ''cubic-bezier 0.100000 0.200000 0.300000 0.400000''\<rparr>
       \<lparr>length_ms = l, easing = e, easing_name = n\<rparr> = Some True"
    if "n = ''linear'' \<or> n = ''cubic-bezier 0.900000 0.200000 0.300000 0.400000''" for l e n f
    using that
    by (auto simp: description_eq.simps stream_defs double_defs compare_read_def and_also_def
        epsilon_comparison_def epsilon_def)
  then show ?thesis
    by (simp add: stream_defs codec_defs double_defs bezier_name_def to_string_fixed_def
        pad6_def digit_char_def)
qed

text \<open>
  The duration is computed in doubles: 1.001 is not a double, and the double nearest to
  it times 1000 is a double below 1001. A duration that is not in the range of \<open>int\<close>
  is converted with undefined behaviour.
\<close>

lemma duration_in_doubles:
  "from_string dts ''1.001 s''
     = Inr (Some \<lparr>length_ms = 1000, easing = Some circle, easing_name = ''circle''\<rparr>)
   \<and> from_string dts ''3e9 ms'' = Inl undefined_behaviour"
  by (simp add: stream_defs codec_defs double_defs)

section \<open>Round trips through the codec\<close>

subsection \<open>Reading back a serialized description\<close>

lemma from_string_int_other_char:
  assumes "c \<in> set s" "\<not> isdigit c" "c \<noteq> CHR ''-''"
  shows "from_string_int s = None"
proof (cases s)
  case Nil
  then show ?thesis using assms by simp
next
  case (Cons a as)
  then have "\<not> list_all isdigit s" "a = CHR ''-'' \<longrightarrow> \<not> list_all isdigit as"
    using assms by (auto simp: list_all_iff)
  then show ?thesis
    using Cons by (auto simp: from_string_int_def)
qed

lemma from_string_int_to_string [simp]:
  "from_string_int (to_string_int n @ CHR ''m'' # r) = None"
  by (rule from_string_int_other_char [of "CHR ''m''"]) (simp_all add: isdigit_def)

lemma no_float_char_m [simp]: "no_float_char (CHR ''m'' # r)"
  by (simp add: no_float_char_def isdigit_def)

lemma double_to_int_of_int:
  "- 2147483648 \<le> n \<Longrightarrow> n \<le> 2147483647 \<Longrightarrow> double_to_int (real_of_int n) = Some n"
  by (simp add: double_to_int_def)

lemma read_header_to_string:
  assumes "- 2147483648 \<le> n" "n \<le> 2147483647"
  shows "read_header (to_string_int n @ CHR ''m'' # CHR ''s'' # CHR '' '' # name)
     = Some (real_of_int n, ''ms'', \<lparr>buf = CHR '' '' # name, eofbit = False, failbit = False\<rparr>)"
proof -
  have "\<bar>n\<bar> \<le> 2 ^ 53" using assms by simp
  then show ?thesis
    by (simp add: read_header_def get_double_int get_string_def sentry_def isspace_def
        stored_def)
qed

text \<open>A stable formatter prints a text that does not start with white space.\<close>

lemma scan_float_space: "isspace c \<Longrightarrow> fst (scan_float (c # s)) = None"
  by (auto simp: isspace_def scan_float_def take_sign_def take_fraction_def scan_exponent_def
      isdigit_def)

lemma reread_stable_D:
  assumes "reread_stable dts" "is_double x" "r = [] \<or> isspace (hd r)"
  shows "\<exists>v. scan_float (dts x @ r) = (Some v, r) \<and> reread dts x = round_double v"
    and "\<bar>reread dts x\<bar> \<le> max_double"
    and "dts (reread dts x) = dts x"
  using assms unfolding reread_stable_def by blast+

lemma reread_stable_head:
  assumes "reread_stable dts" "is_double x"
  shows "dts x \<noteq> [] \<and> \<not> isspace (hd (dts x))"
proof -
  obtain v where s: "scan_float (dts x) = (Some v, [])"
    using reread_stable_D(1) [OF assms, of "[]"] by auto
  show ?thesis
  proof (cases "dts x")
    case Nil
    then show ?thesis using s
      by (simp add: scan_float_def take_sign_def take_fraction_def scan_exponent_def)
  next
    case (Cons c cs)
    then show ?thesis using s scan_float_space [of c cs] by auto
  qed
qed

lemma is_double_reread: "reread_stable dts \<Longrightarrow> is_double x \<Longrightarrow> is_double (reread dts x)"
  using reread_stable_D(2) [of dts x "[]"] by (simp add: reread_def is_double_round)

lemma get_double_reread:
  assumes "reread_stable dts" "is_double x" "r = [] \<or> isspace (hd r)"
  shows "get_double \<lparr>buf = CHR '' '' # dts x @ r, eofbit = False, failbit = False\<rparr>
         = (\<lparr>buf = r, eofbit = (r = []), failbit = False\<rparr>, Some (reread dts x))"
proof -
  obtain c cs where c: "dts x = c # cs" "\<not> isspace c"
    using reread_stable_head [OF assms(1,2)] by (cases "dts x") auto
  have d: "dropWhile isspace (CHR '' '' # dts x @ r) = dts x @ r"
    using c by (simp add: isspace_def)
  have "sentry \<lparr>buf = CHR '' '' # dts x @ r, eofbit = False, failbit = False\<rparr>
        = (\<lparr>buf = dts x @ r, eofbit = False, failbit = False\<rparr>, True)"
    by (subst sentry_good) (simp_all add: d del: dropWhile.simps, simp add: c)
  moreover obtain v where "scan_float (dts x @ r) = (Some v, r)" "reread dts x = round_double v"
    using reread_stable_D(1) [OF assms] by blast
  moreover have "\<not> max_double < \<bar>reread dts x\<bar>"
    using reread_stable_D(2) [OF assms] by simp
  ultimately show ?thesis
    by (simp add: get_double_def)
qed

lemma get_double_reread_end:
  assumes "reread_stable dts" "is_double x"
  shows "get_double \<lparr>buf = CHR '' '' # dts x, eofbit = False, failbit = False\<rparr>
         = (\<lparr>buf = [], eofbit = True, failbit = False\<rparr>, Some (reread dts x))"
  using get_double_reread [OF assms, of "[]"] by simp

lemma dts_reread: "reread_stable dts \<Longrightarrow> is_double x \<Longrightarrow> dts (reread dts x) = dts x"
  using reread_stable_D(3) [of dts x "[]"] by simp

lemma read_easing_bezier:
  assumes "reread_stable dts" "is_double x1" "is_double y1" "is_double x2" "is_double y2"
  shows "read_easing dts \<lparr>buf = CHR '' '' # bezier_name dts x1 y1 x2 y2, eofbit = False, failbit = False\<rparr>
     = Some (\<lparr>buf = [], eofbit = True, failbit = False\<rparr>,
             get_cubic_bezier (reread dts x1) (reread dts y1) (reread dts x2) (reread dts y2),
             bezier_name dts x1 y1 x2 y2)"
proof -
  have g: "get_string \<lparr>buf = CHR '' '' # bezier_name dts x1 y1 x2 y2, eofbit = False, failbit = False\<rparr>
     = (\<lparr>buf = CHR '' '' # dts x1 @ CHR '' '' # dts y1 @ CHR '' '' # dts x2 @ CHR '' '' # dts y2,
         eofbit = False, failbit = False\<rparr>, Some ''cubic-bezier'')"
    by (simp add: get_string_def sentry_def isspace_def bezier_name_def)
  have p: "read_params \<lparr>buf = CHR '' '' # dts x1 @ CHR '' '' # dts y1 @ CHR '' '' # dts x2 @ CHR '' '' # dts y2,
         eofbit = False, failbit = False\<rparr>
     = (\<lparr>buf = [], eofbit = True, failbit = False\<rparr>,
        reread dts x1, reread dts y1, reread dts x2, reread dts y2)"
    by (simp add: read_params_def get_double_reread [OF assms(1)] get_double_reread_end [OF assms(1)]
        assms isspace_def stored_def)
  show ?thesis
    using assms by (simp add: read_easing_def g p stored_def dts_reread) (simp add: bezier_name_def dts_reread)
qed

lemma read_easing_named:
  assumes "name \<in> set get_available_smooth_functions"
  shows "\<exists>f. read_easing dts \<lparr>buf = CHR '' '' # name, eofbit = False, failbit = False\<rparr>
     = Some (\<lparr>buf = [], eofbit = True, failbit = False\<rparr>, f, name)"
  using assms
  by (auto simp: get_available_smooth_functions_def easing_map_def read_easing_def
      get_string_def sentry_def isspace_def stored_def)

lemma from_string_to_string:
  assumes "read_easing dts \<lparr>buf = CHR '' '' # easing_name d, eofbit = False, failbit = False\<rparr>
     = Some (\<lparr>buf = [], eofbit = True, failbit = False\<rparr>, f, name)"
    and "- 2147483648 \<le> length_ms d" "length_ms d \<le> 2147483647"
  shows "from_string dts (to_string d)
     = Inr (Some \<lparr>length_ms = length_ms d, easing = Some f, easing_name = name\<rparr>)"
  using assms
  by (simp add: from_string_def to_string_def read_header_to_string get_string_def sentry_def
      double_to_int_of_int)

text \<open>Every description that \<open>from_string\<close> returns is a valid one.\<close>

lemma read_params_doubles:
  assumes "read_params st = (st', x1, y1, x2, y2)"
  shows "is_double x1 \<and> is_double y1 \<and> is_double x2 \<and> is_double y2"
proof -
  have "is_double (stored r 0) \<and> is_double (stored r 1)" if "get_double s = (s', r)" for s s' r
    using that get_double_is_double [of s s'] by (cases r) (simp_all add: stored_def)
  then show ?thesis
    using assms by (auto simp: read_params_def split: prod.splits)
qed

lemma read_easing_valid:
  assumes "read_easing dts st = Some (st', f, name)"
  shows "name \<in> set get_available_smooth_functions
         \<or> (\<exists>x1 y1 x2 y2. is_double x1 \<and> is_double y1 \<and> is_double x2 \<and> is_double y2
               \<and> name = bezier_name dts x1 y1 x2 y2)"
proof -
  obtain st1 r where g: "get_string st = (st1, r)" by fastforce
  let ?n = "if failbit st1 then ''circle'' else stored r []"
  show ?thesis
  proof (cases "map_of easing_map ?n")
    case None
    obtain st2 x1 y1 x2 y2 where p: "read_params st1 = (st2, x1, y1, x2, y2)"
      by (metis prod_cases5)
    have "name = bezier_name dts x1 y1 x2 y2"
      using assms g None p by (auto simp: read_easing_def Let_def split: if_splits)
    then show ?thesis using read_params_doubles [OF p] by blast
  next
    case (Some h)
    then have "name = ?n" using assms g by (auto simp: read_easing_def Let_def)
    moreover have "?n \<in> set get_available_smooth_functions"
      using Some by (auto simp: get_available_smooth_functions_def dest: map_of_SomeD intro: rev_image_eqI)
    ultimately show ?thesis by simp
  qed
qed

lemma double_to_int_range:
  "double_to_int x = Some n \<Longrightarrow> - 2147483648 \<le> n \<and> n \<le> 2147483647"
  by (auto simp: double_to_int_def Let_def split: if_splits)

lemma from_string_valid:
  assumes "from_string dts text = Inr (Some d)"
  shows "valid_description dts d"
proof (cases "from_string_int text")
  case (Some n)
  then have "d = \<lparr>length_ms = n, easing = Some circle, easing_name = ''circle''\<rparr>"
    using assms by (auto simp: from_string_def)
  moreover have "- 2147483648 \<le> n \<and> n \<le> 2147483647"
    using Some by (auto simp: from_string_int_def Let_def split: if_splits prod.splits)
  ultimately show ?thesis
    by (simp add: valid_description_def get_available_smooth_functions_def easing_map_def)
next
  case None
  then obtain st st' f x where "read_easing dts st = Some (st', f, easing_name d)"
    "double_to_int x = Some (length_ms d)"
    using assms
    by (auto simp: from_string_def split: option.splits if_splits prod.splits)
  then show ?thesis
    using read_easing_valid double_to_int_range by (simp add: valid_description_def)
qed

text \<open>
  C2. For a formatter of doubles that is stable under reading, and every description
  whose duration is an \<open>int\<close> and whose easing name is a registered name or a canonical
  cubic Bezier name (every description that \<open>from_string\<close> returns is one, see
  \<open>from_string_valid\<close>): \<open>to_string\<close> gives the duration, the letters \<open>ms\<close>, a space and
  the easing name, and \<open>from_string\<close> accepts that text and returns a description with
  the same duration and the same easing name; \<open>operator==\<close> finds it equal to the
  original.
\<close>

theorem serialize_parse_roundtrip:
  assumes "reread_stable dts" "valid_description dts d"
  shows "\<exists>d'. from_string dts (to_string d) = Inr (Some d')
      \<and> length_ms d' = length_ms d \<and> easing_name d' = easing_name d
      \<and> description_eq d' d = Some True
      \<and> to_string d = to_string_int (length_ms d) @ ''ms '' @ easing_name d"
proof -
  have r: "- 2147483648 \<le> length_ms d" "length_ms d \<le> 2147483647"
    using assms(2) by (simp_all add: valid_description_def)
  have "\<exists>f. read_easing dts \<lparr>buf = CHR '' '' # easing_name d, eofbit = False, failbit = False\<rparr>
     = Some (\<lparr>buf = [], eofbit = True, failbit = False\<rparr>, f, easing_name d)"
    using assms(2) read_easing_named read_easing_bezier [OF assms(1)]
    by (auto simp: valid_description_def)
  then obtain f where "from_string dts (to_string d)
     = Inr (Some \<lparr>length_ms = length_ms d, easing = Some f, easing_name = easing_name d\<rparr>)"
    using from_string_to_string [OF _ r] by blast
  then show ?thesis
    by (simp add: description_eq.simps to_string_def)
qed

subsection \<open>The fixed-point formatter is stable under reading\<close>

lemma length_string_of_nat: "0 < k \<Longrightarrow> m < 10 ^ k \<Longrightarrow> length (string_of_nat m) \<le> k"
proof (induction m arbitrary: k rule: string_of_nat.induct)
  case (1 n)
  show ?case
  proof (cases "n < 10")
    case True
    then show ?thesis using 1(2) by (subst string_of_nat.simps) simp
  next
    case False
    obtain j where k: "k = Suc j" using 1(2) by (cases k) auto
    have "0 < j" using False 1(3) k by (cases j) auto
    moreover have "n div 10 < 10 ^ j" using 1(3) k by (simp add: less_mult_imp_div_less mult.commute)
    ultimately have "length (string_of_nat (n div 10)) \<le> j"
      using 1(1) [OF False] by blast
    then show ?thesis using False k by (subst string_of_nat.simps) simp
  qed
qed

lemma digits_value_zeros: "digits_value (replicate j (CHR ''0'') @ ds) = digits_value ds"
  by (induction j) (simp_all add: digits_value_def digit_value_def)

lemma pad6_eq:
  assumes "m < 1000000"
  shows "pad6 m = replicate (6 - length (string_of_nat m)) (CHR ''0'') @ string_of_nat m"
proof -
  have "''000000'' = replicate 6 (CHR ''0'')" by (simp add: numeral_eq_Suc)
  then show ?thesis by (simp add: pad6_def)
qed

lemma pad6_props:
  assumes "m < 1000000"
  shows "length (pad6 m) = 6" "list_all isdigit (pad6 m)" "digits_value (pad6 m) = m"
proof -
  have l: "length (string_of_nat m) \<le> 6"
    using length_string_of_nat [of 6 m] assms by simp
  show "length (pad6 m) = 6" using l by (simp add: pad6_eq [OF assms])
  have "isdigit (CHR ''0'')" by (simp add: isdigit_def)
  then show "list_all isdigit (pad6 m)"
    using string_of_nat_digits [of m] by (auto simp: pad6_eq [OF assms] list_all_iff)
  show "digits_value (pad6 m) = m"
    by (simp add: pad6_eq [OF assms] digits_value_zeros)
qed

lemma space_no_float_char: "r = [] \<or> isspace (hd r) \<Longrightarrow> no_float_char r"
  by (cases r) (auto simp: no_float_char_def isspace_def isdigit_def)

lemma scan_float_fixed:
  assumes "list_all isdigit ip" "ip \<noteq> []" "list_all isdigit fp" "r = [] \<or> isspace (hd r)"
  shows "scan_float ((if neg then ''-'' else []) @ ip @ CHR ''.'' # fp @ r)
         = (Some ((if neg then - 1 else 1)
                   * (real (digits_value ip) + real (digits_value fp) / 10 ^ length fp)), r)"
proof -
  obtain c ip' where ip: "ip = c # ip'" using assms(2) by (cases ip) auto
  have c: "isdigit c" using assms(1) ip by simp
  have sign: "take_sign ((if neg then ''-'' else []) @ ip @ CHR ''.'' # fp @ r)
              = (neg, ip @ CHR ''.'' # fp @ r)"
    using isdigit_not_special [OF c] by (simp add: take_sign_def ip)
  have dot: "CHR ''.'' # fp @ r = [] \<or> \<not> isdigit (hd (CHR ''.'' # fp @ r))"
    by (simp add: isdigit_def)
  note nf = space_no_float_char [OF assms(4)]
  note r = no_float_char_digit [OF nf]
  have frac: "take_fraction (CHR ''.'' # fp @ r) = (fp, r)"
    by (simp add: take_fraction_def takeWhile_digits [OF assms(3) r] dropWhile_digits [OF assms(3) r])
  show ?thesis
    by (simp add: scan_float_def sign takeWhile_digits [OF assms(1) dot]
        dropWhile_digits [OF assms(1) dot] frac assms(2) scan_exponent_none [OF nf]
        del: takeWhile.simps dropWhile.simps)
qed

lemma to_string_fixed_eq:
  "to_string_fixed x =
     (if x < 0 \<and> 0 < fixed_units x then ''-'' else [])
     @ string_of_nat (fixed_units x div 1000000) @ CHR ''.'' # pad6 (fixed_units x mod 1000000)"
  by (simp add: to_string_fixed_def fixed_units_def Let_def)

lemma scan_float_to_string_fixed:
  assumes "r = [] \<or> isspace (hd r)"
  shows "scan_float (to_string_fixed x @ r)
         = (Some ((if x < 0 \<and> 0 < fixed_units x then - 1 else 1)
                    * (real (fixed_units x) / 1000000)), r)"
proof -
  let ?n = "fixed_units x"
  have m: "?n mod 1000000 < 1000000" by simp
  have "real (?n div 1000000) + real (?n mod 1000000) / 1000000 = real ?n / 1000000"
  proof -
    have "real ?n = real (?n div 1000000 * 1000000 + ?n mod 1000000)" by simp
    also have "\<dots> = real (?n div 1000000) * 1000000 + real (?n mod 1000000)"
      by (simp only: of_nat_add of_nat_mult of_nat_numeral)
    finally show ?thesis by (simp add: field_simps)
  qed
  then show ?thesis
    using scan_float_fixed [OF string_of_nat_digits [of "?n div 1000000"] string_of_nat_not_Nil
        pad6_props(2) [OF m] assms, where neg = "x < 0 \<and> 0 < ?n"]
    by (simp add: to_string_fixed_eq pad6_props [OF m])
qed

text \<open>
  The millionths of a double, read as a decimal number and rounded to a double, are
  again the millionths that are printed: below \<open>2^33\<close> the rounding moves the number
  by less than half a millionth, and from there on the doubles lie further apart than
  the millionths, so that the rounding returns the double that was printed.
\<close>

lemma fixed_units_reread_pos:
  assumes X: "0 \<le> X" "round_double X = X" "X \<le> max_double"
  defines "n \<equiv> round_even (X * 1000000)"
  defines "w \<equiv> real_of_int n / 1000000"
  shows "round_even (round_double w * 1000000) = n \<and> round_double w \<le> max_double"
proof -
  have near: "\<bar>real_of_int n - X * 1000000\<bar> \<le> 1 / 2"
    unfolding n_def by (rule round_even_error)
  have n0: "0 \<le> n" unfolding n_def using X(1) by (intro round_even_ge) simp
  then have w0: "0 \<le> w" by (simp add: w_def)
  show ?thesis
  proof (cases "w < 2 ^ 33")
    case True
    then have "\<bar>w\<bar> < 2 powi (32 + 1)" using w0 by simp
    from round_double_error_below [OF this]
    have err: "\<bar>round_double w - w\<bar> \<le> 1 / 2 ^ 21"
      by (simp add: power_int_minus_divide)
    have "round_double w * 1000000 - real_of_int n = (round_double w - w) * 1000000"
      by (simp add: w_def algebra_simps)
    then have "\<bar>round_double w * 1000000 - real_of_int n\<bar> = \<bar>round_double w - w\<bar> * 1000000"
      by (simp only: abs_mult abs_numeral)
    moreover have "\<bar>round_double w - w\<bar> * 1000000 < 1 / 2"
      using err by simp
    ultimately have "\<bar>round_double w * 1000000 - real_of_int n\<bar> < 1 / 2"
      by (simp only:)
    then have "round_even (round_double w * 1000000) = n" by (rule round_even_near)
    moreover have "round_double w \<le> max_double"
    proof -
      have "round_double w - w \<le> 1 / 2 ^ 21"
        using err abs_ge_self [of "round_double w - w"] by (rule order_trans [rotated])
      then have "round_double w \<le> 2 ^ 53" using True by simp
      then show ?thesis using max_double_ge by (rule order_trans)
    qed
    ultimately show ?thesis by simp
  next
    case False
    then have w33: "2 ^ 33 \<le> w" by simp
    have "real_of_int n - X * 1000000 \<le> 1 / 2" "- (real_of_int n - X * 1000000) \<le> 1 / 2"
      by (rule abs_le_D1 [OF near], rule abs_le_D2 [OF near])
    then have wX: "w \<le> X + 1 / 2000000" "X \<le> w + 1 / 2000000"
      by (simp_all add: w_def field_simps)
    have X32: "2 ^ 32 < X" using w33 wX by simp
    then have Xpos: "0 < X" by simp
    define k where "k = exponent X"
    define q :: real where "q = 2 powi (k - 52)"
    have k32: "32 \<le> k"
    proof (rule ccontr)
      assume "\<not> 32 \<le> k"
      then have "(2::real) powi (k + 1) \<le> 2 powi 32"
        by (intro power_int_increasing) simp_all
      then show False
        using exponent_bounds(2) [OF Xpos] X32 by (simp add: k_def)
    qed
    have ue: "ulp_exponent X = k - 52"
      using k32 Xpos by (simp add: ulp_exponent_def k_def)
    define m where "m = round_even (X / q)"
    have Xm: "X = of_int m * q"
      using X(2) by (simp add: round_double_pos [OF Xpos] ue m_def q_def)
    have q: "0 < q" by (simp add: q_def)
    have pk: "(2::real) powi k = 2 ^ 52 * q" "(2::real) powi (k + 1) = 2 ^ 53 * q"
      by (simp_all add: q_def power_int_diff power_int_add)
    have "real_of_int m * q < 2 ^ 53 * q"
      using exponent_bounds(2) [OF Xpos] by (simp add: k_def [symmetric] pk Xm [symmetric])
    then have "real_of_int m < 2 ^ 53" using q by simp
    then have "m < 2 ^ 53"
      by (metis of_int_less_iff of_int_numeral of_int_power)
    then have "m \<le> 2 ^ 53 - 1" by simp
    then have "real_of_int m \<le> real_of_int (2 ^ 53 - 1)" by (simp only: of_int_le_iff)
    then have "real_of_int m \<le> 2 ^ 53 - 1" by simp
    then have "real_of_int m * q \<le> (2 ^ 53 - 1) * q"
      using q by (intro mult_right_mono) simp_all
    then have "X \<le> (2 ^ 53 - 1) * q" by (simp only: Xm [symmetric])
    also have "(2 ^ 53 - 1) * q = 2 powi (k + 1) - q"
      by (simp only: pk(2) left_diff_distrib mult_1)
    finally have Xup: "X \<le> 2 powi (k + 1) - q" .
    have k33: "33 \<le> k"
    proof (rule ccontr)
      assume "\<not> 33 \<le> k"
      then have k: "k = 32" using k32 by simp
      have "q = 1 / 2 ^ 20" by (simp add: q_def k power_int_minus_divide)
      then have "X \<le> 2 ^ 33 - 1 / 2 ^ 20" using Xup by (simp add: k)
      then show False using w33 wX by simp
    qed
    have q19: "1 / 2 ^ 19 \<le> q"
    proof -
      have "(2::real) powi (- 19) \<le> 2 powi (k - 52)"
        using k33 by (intro power_int_increasing) simp_all
      then show ?thesis by (simp add: q_def power_int_minus_divide)
    qed
    have wpos: "0 < w" using w33 by simp
    have low: "2 powi k \<le> w"
    proof -
      have p: "(2::real) powi k = 2 ^ nat k" using k33 by (simp add: power_int_nonneg_exp)
      have "real_of_int (2 ^ nat k * 1000000) \<le> X * 1000000"
        using exponent_bounds(1) [OF Xpos] by (simp add: k_def [symmetric] p)
      then have "2 ^ nat k * 1000000 \<le> n" unfolding n_def by (rule round_even_ge)
      then have "real_of_int (2 ^ nat k * 1000000) \<le> real_of_int n" by (simp only: of_int_le_iff)
      then show ?thesis by (simp add: p w_def)
    qed
    have up: "w < 2 powi (k + 1)"
      using Xup wX q19 by simp
    have "exponent w = k" by (rule exponent_unique [OF wpos low up])
    then have uw: "ulp_exponent w = k - 52"
      using k33 wpos by (simp add: ulp_exponent_def)
    have "w / q - real_of_int m = (w - X) / q"
      using q by (simp add: Xm field_simps)
    moreover have "1 / 524288 \<le> q" using q19 by simp
    then have "\<bar>w - X\<bar> < q / 2" using wX by linarith
    then have "\<bar>(w - X) / q\<bar> < 1 / 2" using q by (simp add: field_simps)
    ultimately have "\<bar>w / q - real_of_int m\<bar> < 1 / 2" by simp
    then have "round_even (w / q) = m" by (rule round_even_near)
    then have "round_double w = X"
      by (simp add: round_double_pos [OF wpos] uw q_def [symmetric] Xm)
    then show ?thesis using X(3) by (simp add: n_def)
  qed
qed

lemma fixed_units_reread:
  assumes "is_double x"
  shows "fixed_units (round_double (real (fixed_units x) / 1000000)) = fixed_units x"
    and "round_double (real (fixed_units x) / 1000000) \<le> max_double"
    and "0 \<le> round_double (real (fixed_units x) / 1000000)"
proof -
  let ?n = "round_even (\<bar>x\<bar> * 1000000)"
  have X: "0 \<le> \<bar>x\<bar>" "round_double \<bar>x\<bar> = \<bar>x\<bar>" "\<bar>x\<bar> \<le> max_double"
    using is_double_abs [OF assms] by (simp_all add: is_double_def)
  have n: "0 \<le> ?n" by (intro round_even_ge) simp
  then have w: "real (fixed_units x) / 1000000 = real_of_int ?n / 1000000"
    by (simp add: fixed_units_def)
  note p = fixed_units_reread_pos [OF X]
  have nn: "0 \<le> round_double (real_of_int ?n / 1000000)"
    using n by (intro round_double_nonneg) simp
  show "fixed_units (round_double (real (fixed_units x) / 1000000)) = fixed_units x"
    unfolding w using p nn by (simp add: fixed_units_def)
  show "round_double (real (fixed_units x) / 1000000) \<le> max_double"
    unfolding w using p by simp
  show "0 \<le> round_double (real (fixed_units x) / 1000000)"
    unfolding w by (rule nn)
qed

lemma reread_stable_to_string_fixed: "reread_stable to_string_fixed"
  unfolding reread_stable_def
proof (intro allI impI, elim conjE)
  fix x r
  assume x: "is_double x" and r: "r = [] \<or> isspace (hd r)"
  let ?n = "fixed_units x"
  let ?w = "real ?n / 1000000"
  let ?s = "if x < 0 \<and> 0 < ?n then - 1 else 1 :: real"
  have s: "scan_float (to_string_fixed x @ r) = (Some (?s * ?w), r)"
    by (rule scan_float_to_string_fixed [OF r])
  have v: "reread to_string_fixed x = round_double (?s * ?w)"
    using scan_float_to_string_fixed [of "[]" x] by (simp add: reread_def stored_def)
  have rs: "round_double (?s * ?w) = ?s * round_double ?w"
    using round_double_minus [of ?w] by simp
  note f = fixed_units_reread [OF x]
  have "\<bar>?s * round_double ?w\<bar> = \<bar>round_double ?w\<bar>"
    by (simp add: abs_mult)
  then have "fixed_units (?s * round_double ?w) = fixed_units (round_double ?w)"
    by (simp only: fixed_units_def)
  then have n: "fixed_units (?s * round_double ?w) = ?n"
    using f(1) by (simp only:)
  have pos: "0 < round_double ?w" if "0 < ?n"
  proof (rule ccontr)
    assume "\<not> 0 < round_double ?w"
    then have "round_double ?w = 0" using f(3) by simp
    then have "fixed_units (round_double ?w) = 0" by (simp add: fixed_units_def)
    then show False using f(1) that by simp
  qed
  have "(?s * round_double ?w < 0 \<and> 0 < ?n) = (x < 0 \<and> 0 < ?n)"
    using pos by auto
  then have t: "to_string_fixed (?s * round_double ?w) = to_string_fixed x"
    by (simp only: to_string_fixed_eq n)
  have m: "\<bar>?s * round_double ?w\<bar> \<le> max_double"
    using f(2,3) by simp
  have e: "\<exists>v. scan_float (to_string_fixed x @ r) = (Some v, r)
              \<and> reread to_string_fixed x = round_double v"
    unfolding v using s by blast
  have m': "\<bar>reread to_string_fixed x\<bar> \<le> max_double"
    unfolding v rs by (rule m)
  have t': "to_string_fixed (reread to_string_fixed x) = to_string_fixed x"
    unfolding v rs by (rule t)
  show "(\<exists>v. scan_float (to_string_fixed x @ r) = (Some v, r)
              \<and> reread to_string_fixed x = round_double v)
        \<and> \<bar>reread to_string_fixed x\<bar> \<le> max_double
        \<and> to_string_fixed (reread to_string_fixed x) = to_string_fixed x"
    by (intro conjI e m' t')
qed

theorem serialize_parse_roundtrip_witness:
  "reread_stable to_string_fixed
   \<and> to_string \<lparr>length_ms = 1000,
                 easing = Some (get_cubic_bezier (round_double (1 / 10)) (round_double (1 / 5))
                                  (round_double (3 / 10)) (round_double (2 / 5))),
                 easing_name = ''cubic-bezier 0.100000 0.200000 0.300000 0.400000''\<rparr>
       = ''1000ms cubic-bezier 0.100000 0.200000 0.300000 0.400000''
   \<and> (\<exists>d'. from_string to_string_fixed ''1000ms cubic-bezier 0.100000 0.200000 0.300000 0.400000''
              = Inr (Some d')
          \<and> length_ms d' = 1000
          \<and> easing_name d' = ''cubic-bezier 0.100000 0.200000 0.300000 0.400000'')"
proof -
  let ?d = "\<lparr>length_ms = 1000,
              easing = Some (get_cubic_bezier (round_double (1 / 10)) (round_double (1 / 5))
                               (round_double (3 / 10)) (round_double (2 / 5))),
              easing_name = ''cubic-bezier 0.100000 0.200000 0.300000 0.400000''\<rparr>"
  have n: "easing_name ?d = bezier_name to_string_fixed (round_double (1 / 10))
             (round_double (1 / 5)) (round_double (3 / 10)) (round_double (2 / 5))"
    by (simp add: bezier_name_def to_string_fixed_def pad6_def digit_char_def double_defs)
  have "is_double (round_double y)" if "\<bar>y\<bar> \<le> 1" for y
  proof -
    have "round_double \<bar>y\<bar> \<le> round_double 1" using that by (intro round_double_mono)
    then have "\<bar>round_double y\<bar> \<le> max_double"
      using max_double_ge by (simp add: round_double_abs)
    then show ?thesis by (rule is_double_round)
  qed
  then have "is_double (round_double (1 / 10))" "is_double (round_double (1 / 5))"
    "is_double (round_double (3 / 10))" "is_double (round_double (2 / 5))"
    by simp_all
  then have v: "valid_description to_string_fixed ?d"
    unfolding valid_description_def using n by auto
  have t: "to_string ?d = ''1000ms cubic-bezier 0.100000 0.200000 0.300000 0.400000''"
    by (simp add: to_string_def to_string_int_def digit_char_def)
  show ?thesis
    using serialize_parse_roundtrip [OF reread_stable_to_string_fixed v] t
      reread_stable_to_string_fixed
    by auto
qed




end
